theory Spec2Isabelle
  imports Complex_Main "HOL-Library.Sublist"
begin

section \<open>Python strings\<close>

text \<open>
  A Python \<open>str\<close> is a sequence of Unicode code points: \<open>len\<close> counts code points
  and slicing cuts between them. The ellipsis that \<open>truncate\<close> appends is the single
  code point U+2026, which is not an 8-bit character, so a string is modelled as a list of
  code points. \<open>lit\<close> turns an ASCII literal of the source into such a list.
\<close>

type_synonym ustring = "nat list"

definition lit :: "string \<Rightarrow> ustring" where
  "lit s = map of_char s"

definition NL :: nat where
  "NL = 10"

definition ELLIPSIS :: nat where
  "ELLIPSIS = 8230"

text \<open>
  \<open>str.isspace\<close> for one code point: the code points that \<open>str.strip()\<close> without
  argument removes (U+0009..U+000D, U+001C..U+0020, U+0085, U+00A0, U+1680,
  U+2000..U+200A, U+2028, U+2029, U+202F, U+205F, U+3000).
\<close>

definition isspace :: "nat \<Rightarrow> bool" where
  "isspace c \<longleftrightarrow>
     (9 \<le> c \<and> c \<le> 13) \<or> (28 \<le> c \<and> c \<le> 32) \<or> c = 133 \<or> c = 160 \<or> c = 5760 \<or>
     (8192 \<le> c \<and> c \<le> 8202) \<or> c = 8232 \<or> c = 8233 \<or> c = 8239 \<or> c = 8287 \<or> c = 12288"

text \<open>\<open>s.strip()\<close>: leading and trailing whitespace removed.\<close>

definition strip :: "ustring \<Rightarrow> ustring" where
  "strip s = rev (dropWhile isspace (rev (dropWhile isspace s)))"

text \<open>
  \<open>s.split(sep)\<close> for a one-character separator: the pieces between the separators, so
  the result always has at least one entry (\<open>"".split("\n") == [""]\<close>).
\<close>

fun split_on :: "nat \<Rightarrow> ustring \<Rightarrow> ustring list" where
  "split_on sep [] = [[]]"
| "split_on sep (c # cs) =
     (if c = sep then [] # split_on sep cs
      else (case split_on sep cs of [] \<Rightarrow> [[c]] | l # ls \<Rightarrow> (c # l) # ls))"

text \<open>\<open>sub in s\<close>: \<open>sub\<close> occurs in \<open>s\<close> as a contiguous substring.\<close>

fun contains :: "ustring \<Rightarrow> ustring \<Rightarrow> bool" where
  "contains sub [] = (sub = [])"
| "contains sub (c # cs) = (prefix sub (c # cs) \<or> contains sub cs)"

text \<open>\<open>s.startswith(p)\<close>.\<close>

definition startswith :: "ustring \<Rightarrow> ustring \<Rightarrow> bool" where
  "startswith s p = prefix p s"

text \<open>
  \<open>s[:k]\<close>: the first \<open>k\<close> items when \<open>k\<close> is not negative, all but the last
  \<open>-k\<close> items when it is.
\<close>

definition slice_to :: "'a list \<Rightarrow> int \<Rightarrow> 'a list" where
  "slice_to s k = (if 0 \<le> k then take (nat k) s else take (nat (int (length s) + k)) s)"

text \<open>\<open>str(n)\<close> for an integer: its decimal digits, with a minus sign when negative.\<close>

fun str_nat :: "nat \<Rightarrow> ustring" where
  "str_nat n = (if n < 10 then [48 + n] else str_nat (n div 10) @ [48 + n mod 10])"

declare str_nat.simps [simp del]

definition str_int :: "int \<Rightarrow> ustring" where
  "str_int i = (if i < 0 then 45 # str_nat (nat (- i)) else str_nat (nat i))"

section \<open>Events and the chunk classifier\<close>

text \<open>
  The first component of the tuples put on the queue is one of nine string tags; the
  second is the playbook, the third the message.
\<close>

datatype kind = START | DONE | RECAP | OK | CHANGED | ERROR | UNREACHABLE | TASK | MSG

type_synonym event = "kind \<times> ustring \<times> ustring"

definition msgtype :: "event \<Rightarrow> kind" where
  "msgtype e = fst e"

definition playbook_of :: "event \<Rightarrow> ustring" where
  "playbook_of e = fst (snd e)"

definition msg_of :: "event \<Rightarrow> ustring" where
  "msg_of e = snd (snd e)"

text \<open>
  \<open>prepare_chunk\<close>: the block guarded by \<open>len(lines) >= 2\<close> either returns a
  kind or falls through (\<open>None\<close>) to the three rules that follow it.
\<close>

definition guarded_rules :: "ustring list \<Rightarrow> ustring \<Rightarrow> kind option" where
  "guarded_rules lines chunk =
     (if length lines \<ge> 2 then
        (if contains (lit ''PLAY RECAP'') chunk then Some RECAP
         else if contains (lit ''ok:'') (lines ! 1) then Some OK
         else if contains (lit ''changed:'') (lines ! 1) then Some CHANGED
         else if contains (lit ''failed:'') (lines ! 1) \<or> contains (lit ''fatal:'') (lines ! 1)
           then Some ERROR
         else if contains (lit ''unreachable:'') (lines ! 1) then Some UNREACHABLE
         else None)
      else None)"

definition prepare_chunk :: "ustring \<Rightarrow> ustring \<Rightarrow> event" where
  "prepare_chunk playbook chunk =
     (let lines = split_on NL (strip chunk) in
      case guarded_rules lines chunk of
        Some k \<Rightarrow> (k, playbook, chunk)
      | None \<Rightarrow>
          if startswith chunk (lit ''TASK'') then (TASK, playbook, chunk)
          else if contains (lit ''ERROR!'') chunk then (ERROR, playbook, chunk)
          else (MSG, playbook, chunk))"

text \<open>
  The rules for a chunk that is not a recap, in the words of the specification: the
  keyword rules read the second entry of the trimmed line list, the TASK rule reads the
  first line of the chunk.
\<close>

definition first_line :: "ustring \<Rightarrow> ustring" where
  "first_line chunk = hd (split_on NL chunk)"

definition rules_6_to_8 :: "ustring \<Rightarrow> kind" where
  "rules_6_to_8 chunk =
     (if startswith (first_line chunk) (lit ''TASK'') then TASK
      else if contains (lit ''ERROR!'') chunk then ERROR
      else MSG)"

definition rules_2_to_8 :: "ustring \<Rightarrow> kind" where
  "rules_2_to_8 chunk =
     (let lines = split_on NL (strip chunk) in
      if length lines < 2 then rules_6_to_8 chunk
      else if contains (lit ''ok:'') (lines ! 1) then OK
      else if contains (lit ''changed:'') (lines ! 1) then CHANGED
      else if contains (lit ''failed:'') (lines ! 1) \<or> contains (lit ''fatal:'') (lines ! 1)
        then ERROR
      else if contains (lit ''unreachable:'') (lines ! 1) then UNREACHABLE
      else rules_6_to_8 chunk)"

section \<open>Truncation\<close>

text \<open>The function \<open>truncate\<close> of the source.\<close>

definition truncate_str :: "ustring \<Rightarrow> int \<Rightarrow> ustring" where
  "truncate_str string max_width =
     (if int (length string) \<le> max_width then string
      else slice_to string (max_width - 1) @ [ELLIPSIS])"

section \<open>The stream reader: \<open>run_playbook\<close>\<close>

datatype error = SpawnError | ReadError | ValueError | KeyError

text \<open>
  The external process of a job is a parameter of the model, in one of three forms.
  \<^item> \<open>SpawnFails\<close>: it cannot be started, \<open>create_subprocess_exec\<close> raises.
  \<^item> \<open>Proc lines rc\<close>: it runs; \<open>lines\<close> are the decoded results of the
    successive \<open>readline()\<close> calls up to the end of the stream, \<open>rc\<close> is the exit
    code (negative when the process was killed by a signal).
  \<^item> \<open>ReadFails lines rc\<close>: it runs and \<open>lines\<close> are read as before, but the read
    after them raises: \<open>readline()\<close> raises ValueError on a line longer than the limit
    of the stream, \<open>decode()\<close> raises UnicodeDecodeError on bytes that are not UTF-8.
    \<open>ReadError\<close> stands for either. Should an empty string among \<open>lines\<close> have
    ended the loop before, the failing read is never made and \<open>rc\<close> is the exit code.
  The output is finite: the process terminates.
\<close>

datatype proc =
    SpawnFails
  | Proc (stdout_lines: "ustring list") (returncode: int)
  | ReadFails (stdout_lines: "ustring list") (returncode: int)

text \<open>
  The \<open>while True\<close> loop of \<open>run_playbook\<close> and the \<open>if task:\<close> after it, as the
  list of events they put on the queue. The end of the list is the end of the stream,
  where \<open>readline()\<close> returns the empty string; an empty string also ends the loop.
\<close>

fun read_loop :: "ustring \<Rightarrow> ustring list \<Rightarrow> ustring list \<Rightarrow> event list" where
  "read_loop playbook task [] =
     (if task \<noteq> [] then [prepare_chunk playbook (concat task)] else [])"
| "read_loop playbook task (line # rest) =
     (if line = [] then read_loop playbook task []
      else if line = [NL] then
        prepare_chunk playbook (concat task @ line) # read_loop playbook [] rest
      else read_loop playbook (task @ [line]) rest)"

text \<open>
  The same loop when the read after the last of the lines raises: the events put before
  the exception, and whether it was raised (\<open>True\<close>) or the loop had ended before on an
  empty string (\<open>False\<close>, and then the \<open>if task:\<close> was run). An exception leaves the
  loop at once, so what is in the buffer then is never put.
\<close>

fun read_loop_raising ::
  "ustring \<Rightarrow> ustring list \<Rightarrow> ustring list \<Rightarrow> event list \<times> bool"
where
  "read_loop_raising playbook task [] = ([], True)"
| "read_loop_raising playbook task (line # rest) =
     (if line = [] then (read_loop playbook task [], False)
      else if line = [NL] then
        (case read_loop_raising playbook [] rest of
           (evs, raised) \<Rightarrow> (prepare_chunk playbook (concat task @ line) # evs, raised))
      else read_loop_raising playbook (task @ [line]) rest)"

definition done_event :: "ustring \<Rightarrow> int \<Rightarrow> event" where
  "done_event playbook rc =
     (if rc \<noteq> 0 then (DONE, playbook, lit ''Exited with error code: '' @ str_int rc)
      else (DONE, playbook, lit ''Done.''))"

text \<open>
  \<open>run_playbook\<close> talks to the rest of the program only through \<open>results.put\<close>, which
  never blocks on the unbounded queue, and through its return value. It is modelled by
  the events it puts, in order, and by how it ends: the exit code, or the exception of the
  failed spawn or of the failed read, both raised after START was put and without a DONE.
\<close>

definition run_playbook :: "ustring \<Rightarrow> proc \<Rightarrow> event list \<times> (error + int)" where
  "run_playbook playbook p =
     (case p of
        SpawnFails \<Rightarrow> ([(START, playbook, [])], Inl SpawnError)
      | Proc lines rc \<Rightarrow>
          ((START, playbook, []) # read_loop playbook [] lines @ [done_event playbook rc],
           Inr rc)
      | ReadFails lines rc \<Rightarrow>
          (case read_loop_raising playbook [] lines of
             (evs, raised) \<Rightarrow>
               if raised then ((START, playbook, []) # evs, Inl ReadError)
               else ((START, playbook, []) # evs @ [done_event playbook rc], Inr rc)))"

section \<open>The live renderer: \<open>show_progression\<close>\<close>

definition ESC :: nat where
  "ESC = 27"

definition DISABLE_CURSOR :: ustring where
  "DISABLE_CURSOR = ESC # lit ''[?25l''"

definition ENABLE_CURSOR :: ustring where
  "ENABLE_CURSOR = ESC # lit ''[?25h''"

definition ERASE_IN_LINE :: ustring where
  "ERASE_IN_LINE = ESC # lit ''[0K''"

definition ATTRIBUTES_OFF :: ustring where
  "ATTRIBUTES_OFF = ESC # lit ''[m''"

text \<open>The cursor movements \<open>f"\033[{n}A"\<close>, \<open>C\<close>, \<open>B\<close> and \<open>D\<close>.\<close>

definition cursor_up :: "int \<Rightarrow> ustring" where
  "cursor_up n = ESC # lit ''['' @ str_int n @ lit ''A''"

definition cursor_right :: "int \<Rightarrow> ustring" where
  "cursor_right n = ESC # lit ''['' @ str_int n @ lit ''C''"

definition cursor_down :: "int \<Rightarrow> ustring" where
  "cursor_down n = ESC # lit ''['' @ str_int n @ lit ''B''"

definition cursor_left :: "int \<Rightarrow> ustring" where
  "cursor_left n = ESC # lit ''['' @ str_int n @ lit ''D''"

text \<open>
  The local variables of \<open>show_progression\<close>. \<open>recaps\<close> is a dictionary whose order
  of insertion matters for the final report, so it is an association list; \<open>stream\<close>
  is the list of the strings written so far (\<open>flush\<close> writes nothing).
\<close>

record rstate =
  recaps :: "(ustring \<times> ustring list) list"
  starts :: "ustring \<rightharpoonup> real"
  ends :: "ustring \<rightharpoonup> real"
  currently_running :: "ustring list"
  frameno :: nat
  longest_name :: nat
  stream :: "ustring list"

definition stream_write :: "ustring \<Rightarrow> rstate \<Rightarrow> rstate" where
  "stream_write x s = s\<lparr>stream := stream s @ [x]\<rparr>"

text \<open>\<open>max(...)\<close> raises ValueError on an empty sequence.\<close>

definition py_max :: "nat list \<Rightarrow> error + nat" where
  "py_max xs = (case xs of [] \<Rightarrow> Inl ValueError | x # ys \<Rightarrow> Inr (fold max ys x))"

text \<open>\<open>xs.index(x)\<close>: the first position of \<open>x\<close>, ValueError (here \<open>None\<close>) without one.\<close>

fun index_of :: "'a list \<Rightarrow> 'a \<Rightarrow> nat option" where
  "index_of [] x = None"
| "index_of (y # ys) x = (if y = x then Some 0 else map_option Suc (index_of ys x))"

text \<open>\<open>recaps[playbook].append(msg)\<close> on the \<open>defaultdict(list)\<close>.\<close>

fun recaps_append ::
  "(ustring \<times> ustring list) list \<Rightarrow> ustring \<Rightarrow> ustring \<Rightarrow> (ustring \<times> ustring list) list"
where
  "recaps_append [] playbook msg = [(playbook, [msg])]"
| "recaps_append ((k, v) # r) playbook msg =
     (if k = playbook then (k, v @ [msg]) # r else (k, v) # recaps_append r playbook msg)"

text \<open>The statements of \<open>show_progression\<close> before its loop.\<close>

definition show_start :: "ustring list \<Rightarrow> (error \<times> rstate) + rstate" where
  "show_start playbooks =
     (let s = \<lparr>recaps = [], starts = Map.empty, ends = Map.empty, currently_running = [],
               frameno = 0, longest_name = 0, stream = [DISABLE_CURSOR]\<rparr>
      in case py_max (map length playbooks) of
           Inl e \<Rightarrow> Inl (e, s)
         | Inr n \<Rightarrow>
             Inr (s\<lparr>longest_name := n,
                    stream := stream s @ map (\<lambda>playbook. playbook @ lit '': '' @ [NL]) playbooks\<rparr>))"

text \<open>
  One pass of the loop body for an event taken from the queue. \<open>now\<close> is what
  \<open>perf_counter()\<close> reads during this pass. \<open>playbooks.index\<close> and
  \<open>currently_running.remove\<close> raise ValueError when the item is missing; the result is
  then the exception with the state reached.
\<close>

definition show_event ::
  "ustring list \<Rightarrow> int \<Rightarrow> real \<Rightarrow> event \<Rightarrow> rstate \<Rightarrow> (error \<times> rstate) + rstate"
where
  "show_event playbooks columns now result s0 =
     (let msgtype = fst result; playbook = fst (snd result); msg = snd (snd result);
          s1 = s0\<lparr>frameno := frameno s0 + 1\<rparr>
      in case index_of playbooks playbook of
           None \<Rightarrow> Inl (ValueError, s1)
         | Some position \<Rightarrow>
            (let diff = int (length playbooks) - int position;
                 s2 = stream_write (cursor_right (int (longest_name s1) + 2))
                        (stream_write (cursor_up diff) s1);
                 s3 = (if msgtype = START then
                         stream_write (lit ''Started'') (stream_write ATTRIBUTES_OFF (stream_write ERASE_IN_LINE
                           (s2\<lparr>starts := (starts s2)(playbook \<mapsto> now),
                               currently_running := currently_running s2 @ [playbook]\<rparr>)))
                       else s2)
             in if msgtype = DONE \<and> playbook \<notin> set (currently_running s3)
                then Inl (ValueError, s3)
                else
                 (let s4 = (if msgtype = DONE then
                              stream_write msg (stream_write ATTRIBUTES_OFF (stream_write ERASE_IN_LINE
                                (s3\<lparr>currently_running := remove1 playbook (currently_running s3),
                                    ends := (ends s3)(playbook \<mapsto> now)\<rparr>)))
                            else s3);
                      s5 = (if msgtype = RECAP then
                              s4\<lparr>recaps := recaps_append (recaps s4) playbook msg\<rparr>
                            else s4);
                      s6 = (if msgtype = TASK then
                              stream_write (truncate_str (hd (split_on NL msg))
                                       (columns - int (longest_name s5) - 4))
                                (stream_write ATTRIBUTES_OFF (stream_write ERASE_IN_LINE s5))
                            else s5);
                      s7 = (if msgtype = ERROR then
                              s6\<lparr>recaps := recaps_append (recaps s6) playbook msg\<rparr>
                            else s6)
                  in Inr (stream_write (cursor_left (columns + 1)) (stream_write (cursor_down diff) s7)))))"

text \<open>
  The final report. \<open>ends[playbook] - starts[playbook]\<close> raises KeyError when a key is
  missing. \<open>fmt\<close> stands for the float formatting \<open>:.0f\<close> of the elapsed time.
\<close>

definition report_chunk :: "ustring \<Rightarrow> ustring list" where
  "report_chunk chunk =
     concat (map (\<lambda>line. if contains (lit ''PLAY RECAP'') line then [] else [line, [NL]])
                 (split_on NL chunk))"

fun final_report ::
  "(real \<Rightarrow> ustring) \<Rightarrow> (ustring \<times> ustring list) list \<Rightarrow> rstate \<Rightarrow> (error \<times> rstate) + rstate"
where
  "final_report fmt [] s = Inr s"
| "final_report fmt ((playbook, recap) # rest) s =
     (case ends s playbook of
        None \<Rightarrow> Inl (KeyError, s)
      | Some e \<Rightarrow>
         (case starts s playbook of
            None \<Rightarrow> Inl (KeyError, s)
          | Some b \<Rightarrow>
              final_report fmt rest
                (s\<lparr>stream := stream s @
                      [lit ''# Playbook '' @ playbook @ lit '', ran in '' @ fmt (e - b) @
                       lit ''s'' @ [NL]] @
                      concat (map report_chunk recap)\<rparr>)))"

text \<open>What follows the loop once the sentinel \<open>None\<close> was read.\<close>

definition show_finish :: "(real \<Rightarrow> ustring) \<Rightarrow> rstate \<Rightarrow> (error \<times> rstate) + rstate" where
  "show_finish fmt s =
     (let s1 = stream_write [NL] (stream_write ENABLE_CURSOR s) in final_report fmt (recaps s1) s1)"

section \<open>The execution engine: \<open>playbook_wrapper\<close> and \<open>amain\<close>\<close>

text \<open>
  What is modelled of \<open>amain\<close> is the engine, from the creation of the queue to the
  returned sum. The tasks of the event loop are the job tasks (one \<open>playbook_wrapper\<close> per
  playbook), the printer task and \<open>amain\<close> itself. The loop is cooperative: a task runs
  alone until it suspends. The model lets the scheduler pick any enabled task at every
  step and lets a job suspend between any two of its puts, so every interleaving of the
  program is one of the model.
\<close>

record cfg =
  playbooks :: "ustring list"
  procs :: "nat \<Rightarrow> proc"
  max_playbooks :: nat
  columns :: int
  fmt_secs :: "real \<Rightarrow> ustring"


text \<open>
  A job task: waiting for a permit; inside \<open>async with semaphore\<close>, running
  \<open>run_playbook\<close>, with the events it has still to put and the way it will end; finished,
  with the permit given back; or cancelled.
\<close>

datatype job =
    Waiting
  | Running "event list" "error + int"
  | Finished "error + int"
  | Cancelled

datatype printer =
    Printing rstate
  | Printed rstate
  | Crashed error rstate
  | Stopped rstate

datatype mainst = Gathering | AwaitingPrinter | Returned int | Raised

text \<open>
  \<open>queue\<close> is \<open>results_queue\<close>, oldest item first. \<open>sent\<close> is not a variable of the
  program: it records every event ever put, with the index of the job that put it.
\<close>

record sys =
  permits :: nat
  jobs :: "job list"
  queue :: "event option list"
  sent :: "(nat \<times> event) list"
  printer :: printer
  amain :: mainst

definition init :: "cfg \<Rightarrow> sys" where
  "init c =
     \<lparr>permits = max_playbooks c,
      jobs = replicate (length (playbooks c)) Waiting,
      queue = [],
      sent = [],
      printer = (case show_start (playbooks c) of
                   Inl (e, r) \<Rightarrow> Crashed e r
                 | Inr r \<Rightarrow> Printing r),
      amain = Gathering\<rparr>"

text \<open>
  One step of job \<open>i\<close>. Waiting, it takes a permit when there is one and enters
  \<open>run_playbook\<close>. Running, it puts its next event; with none left it leaves
  \<open>async with\<close>, which gives the permit back whether \<open>run_playbook\<close> returned or raised.
  Once \<open>amain\<close> has ended with an exception, \<open>asyncio.run\<close> cancels the tasks that are
  left: the step of a job is then its cancellation, which gives back the permit it holds.
\<close>

definition job_step :: "cfg \<Rightarrow> nat \<Rightarrow> sys \<Rightarrow> sys option" where
  "job_step c i s =
     (if i \<ge> length (jobs s) then None
      else case jobs s ! i of
        Waiting \<Rightarrow>
          if amain s = Raised then Some (s\<lparr>jobs := (jobs s)[i := Cancelled]\<rparr>)
          else if permits s = 0 then None
          else
            (let (evs, outcome) = run_playbook (playbooks c ! i) (procs c i)
             in Some (s\<lparr>permits := permits s - 1, jobs := (jobs s)[i := Running evs outcome]\<rparr>))
      | Running evs outcome \<Rightarrow>
          if amain s = Raised
          then Some (s\<lparr>permits := permits s + 1, jobs := (jobs s)[i := Cancelled]\<rparr>)
          else
            (case evs of
               [] \<Rightarrow> Some (s\<lparr>permits := permits s + 1, jobs := (jobs s)[i := Finished outcome]\<rparr>)
             | e # rest \<Rightarrow>
                 Some (s\<lparr>queue := queue s @ [Some e], sent := sent s @ [(i, e)],
                         jobs := (jobs s)[i := Running rest outcome]\<rparr>))
      | Finished outcome \<Rightarrow> None
      | Cancelled \<Rightarrow> None)"

text \<open>
  One step of the printer: blocked on an empty queue; otherwise it takes the oldest item,
  an event or the sentinel. An exception in the loop passes the \<open>finally\<close> that shows the
  cursor again, and so does its cancellation.
\<close>

definition printer_step :: "cfg \<Rightarrow> real \<Rightarrow> sys \<Rightarrow> sys option" where
  "printer_step c now s =
     (case printer s of
        Printing r \<Rightarrow>
          if amain s = Raised then Some (s\<lparr>printer := Stopped (stream_write ENABLE_CURSOR r)\<rparr>)
          else
            (case queue s of
               [] \<Rightarrow> None
             | None # q \<Rightarrow>
                 Some (s\<lparr>queue := q,
                         printer := (case show_finish (fmt_secs c) r of
                                       Inl (e, r') \<Rightarrow> Crashed e r'
                                     | Inr r' \<Rightarrow> Printed r')\<rparr>)
             | Some result # q \<Rightarrow>
                 Some (s\<lparr>queue := q,
                         printer := (case show_event (playbooks c) (columns c) now result r of
                                       Inl (e, r') \<Rightarrow> Crashed e (stream_write ENABLE_CURSOR r')
                                     | Inr r' \<Rightarrow> Printing r')\<rparr>))
      | Printed r \<Rightarrow> None
      | Crashed e r \<Rightarrow> None
      | Stopped r \<Rightarrow> None)"

text \<open>
  \<open>asyncio.gather\<close> without \<open>return_exceptions\<close>: as soon as one task has raised, the
  exception is raised in the caller; when all have returned, the list of their results;
  until then (\<open>None\<close>) the caller waits.
\<close>

fun failure :: "job \<Rightarrow> error option" where
  "failure (Finished (Inl e)) = Some e"
| "failure j = None"

fun result_of :: "job \<Rightarrow> int option" where
  "result_of (Finished (Inr rc)) = Some rc"
| "result_of j = None"

definition gather :: "job list \<Rightarrow> (error + int list) option" where
  "gather js =
     (case List.map_filter failure js of
        e # es \<Rightarrow> Some (Inl e)
      | [] \<Rightarrow> map_option Inr (those (map result_of js)))"

text \<open>
  One step of \<open>amain\<close>: past \<open>gather\<close> it puts the sentinel and awaits the printer task,
  whose exception it would raise; then it returns \<open>sum(results)\<close>.
\<close>

definition amain_step :: "cfg \<Rightarrow> sys \<Rightarrow> sys option" where
  "amain_step c s =
     (case amain s of
        Gathering \<Rightarrow>
          (case gather (jobs s) of
             None \<Rightarrow> None
           | Some (Inl e) \<Rightarrow> Some (s\<lparr>amain := Raised\<rparr>)
           | Some (Inr results) \<Rightarrow> Some (s\<lparr>queue := queue s @ [None], amain := AwaitingPrinter\<rparr>))
      | AwaitingPrinter \<Rightarrow>
          (case printer s of
             Printed r \<Rightarrow>
               (case gather (jobs s) of
                  Some (Inr results) \<Rightarrow> Some (s\<lparr>amain := Returned (sum_list results)\<rparr>)
                | _ \<Rightarrow> None)
           | Crashed e r \<Rightarrow> Some (s\<lparr>amain := Raised\<rparr>)
           | _ \<Rightarrow> None)
      | Returned v \<Rightarrow> None
      | Raised \<Rightarrow> None)"

datatype action = Job nat | Printer real | Amain

definition step :: "cfg \<Rightarrow> action \<Rightarrow> sys \<Rightarrow> sys option" where
  "step c a s =
     (case a of
        Job i \<Rightarrow> job_step c i s
      | Printer now \<Rightarrow> printer_step c now s
      | Amain \<Rightarrow> amain_step c s)"

text \<open>
  A run of the program is a schedule: the list of the steps taken from the initial state.
  \<open>exec\<close> is \<open>None\<close> when the schedule asks for a step that is not enabled.
\<close>

fun exec :: "cfg \<Rightarrow> action list \<Rightarrow> sys \<Rightarrow> sys option" where
  "exec c [] s = Some s"
| "exec c (a # as) s = (case step c a s of None \<Rightarrow> None | Some s' \<Rightarrow> exec c as s')"

section \<open>Runs of the engine and their invariants\<close>

text \<open>
  What job \<open>i\<close> puts and how it ends is fixed by its playbook and its process;
  \<open>sent_by i s\<close> are the events it has put so far.
\<close>

definition job_events :: "cfg \<Rightarrow> nat \<Rightarrow> event list" where
  "job_events c i = fst (run_playbook (playbooks c ! i) (procs c i))"

definition job_outcome :: "cfg \<Rightarrow> nat \<Rightarrow> error + int" where
  "job_outcome c i = snd (run_playbook (playbooks c ! i) (procs c i))"

definition sent_by :: "nat \<Rightarrow> sys \<Rightarrow> event list" where
  "sent_by i s = map snd (filter (\<lambda>p. fst p = i) (sent s))"

text \<open>A job holds a permit exactly while it is inside \<open>async with semaphore\<close>.\<close>

fun holds_permit :: "job \<Rightarrow> bool" where
  "holds_permit (Running evs outcome) = True"
| "holds_permit j = False"




text \<open>
  What the state of a job says about the events \<open>put\<close> so far, given all the events
  \<open>full\<close> of its \<open>run_playbook\<close> and its outcome.
\<close>

fun job_ok :: "event list \<Rightarrow> event list \<Rightarrow> error + int \<Rightarrow> job \<Rightarrow> bool" where
  "job_ok put full oc Waiting = (put = [])"
| "job_ok put full oc (Running evs outcome) = (put @ evs = full \<and> outcome = oc)"
| "job_ok put full oc (Finished outcome) = (put = full \<and> outcome = oc)"
| "job_ok put full oc Cancelled = prefix put full"

text \<open>
  The invariant of the jobs: one job per playbook, each as \<open>job_ok\<close> says, and the
  permits that are free or held add up to the size of the semaphore.
\<close>

definition inv_jobs :: "cfg \<Rightarrow> sys \<Rightarrow> bool" where
  "inv_jobs c s \<longleftrightarrow>
     length (jobs s) = length (playbooks c) \<and>
     (\<forall>i < length (jobs s).
        job_ok (sent_by i s) (job_events c i) (job_outcome c i) (jobs s ! i)) \<and>
     (\<forall>p \<in> set (sent s). fst p < length (jobs s)) \<and>
     permits s + length (filter holds_permit (jobs s)) = max_playbooks c"

text \<open>
  The invariant of \<open>amain\<close> and the sentinel: while some job has not returned, the
  sentinel is not in the queue, \<open>amain\<close> is at \<open>gather\<close> or has raised, and the
  final report is not printed; the sentinel is the last item of the queue; the value
  returned is the sum of the results.
\<close>

definition returned_with :: "int list \<Rightarrow> job list \<Rightarrow> bool" where
  "returned_with rs js \<longleftrightarrow> js = map (\<lambda>rc. Finished (Inr rc)) rs"

definition inv_ctl :: "sys \<Rightarrow> bool" where
  "inv_ctl s \<longleftrightarrow>
     (amain s = Gathering \<longrightarrow> None \<notin> set (queue s)) \<and>
     ((\<exists>rs. returned_with rs (jobs s)) \<or>
      (None \<notin> set (queue s) \<and> (amain s = Gathering \<or> amain s = Raised) \<and>
       (\<forall>r. printer s \<noteq> Printed r))) \<and>
     None \<notin> set (butlast (queue s)) \<and>
     (\<forall>v. amain s = Returned v \<longrightarrow> (\<exists>rs. returned_with rs (jobs s) \<and> v = sum_list rs))"

definition inv :: "cfg \<Rightarrow> sys \<Rightarrow> bool" where
  "inv c s \<longleftrightarrow> inv_jobs c s \<and> inv_ctl s"

text \<open>
  What the examples observe of a state, and the configuration they run: the playbooks, the
  process of each job, the size of the semaphore.
\<close>

datatype printer_status = IsPrinting | IsPrinted | IsCrashed error | IsStopped

fun status_of :: "printer \<Rightarrow> printer_status" where
  "status_of (Printing r) = IsPrinting"
| "status_of (Printed r) = IsPrinted"
| "status_of (Crashed e r) = IsCrashed e"
| "status_of (Stopped r) = IsStopped"

definition observe ::
  "sys \<Rightarrow> nat \<times> job list \<times> event option list \<times> (nat \<times> event) list \<times> printer_status \<times> mainst"
where
  "observe s = (permits s, jobs s, queue s, sent s, status_of (printer s), amain s)"

definition demo :: "ustring list \<Rightarrow> proc list \<Rightarrow> nat \<Rightarrow> cfg" where
  "demo pbs ps k =
     \<lparr>playbooks = pbs, procs = (\<lambda>i. if i < length ps then ps ! i else SpawnFails),
      max_playbooks = k, columns = 80, fmt_secs = (\<lambda>x. lit ''0'')\<rparr>"

text \<open>
  For the final report: the events waiting in a queue, the playbooks of the events of one
  kind, and what relates the renderer's dictionaries to what was sent and what still
  waits. \<open>report_keys\<close> are the keys of \<open>recaps\<close>, in order.
\<close>

definition events :: "event option list \<Rightarrow> event set" where
  "events q = {e. Some e \<in> set q}"

definition pbs_of :: "kind \<Rightarrow> event set \<Rightarrow> ustring set" where
  "pbs_of k E = playbook_of ` {e \<in> E. msgtype e = k}"

definition inv_print :: "sys \<Rightarrow> bool" where
  "inv_print s \<longleftrightarrow>
     events (queue s) \<subseteq> snd ` set (sent s) \<and>
     (\<forall>r. printer s = Printing r \<longrightarrow>
        fst ` set (recaps r) \<subseteq> playbook_of ` snd ` set (sent s) \<and>
        pbs_of START (snd ` set (sent s)) \<subseteq> dom (starts r) \<union> pbs_of START (events (queue s)) \<and>
        pbs_of DONE (snd ` set (sent s)) \<subseteq> dom (ends r) \<union> pbs_of DONE (events (queue s)))"

fun rstate_of :: "printer \<Rightarrow> rstate" where
  "rstate_of (Printing r) = r"
| "rstate_of (Printed r) = r"
| "rstate_of (Crashed e r) = r"
| "rstate_of (Stopped r) = r"

definition report_keys :: "sys \<Rightarrow> ustring list" where
  "report_keys s = map fst (recaps (rstate_of (printer s)))"

section \<open>Properties of the classifier, the truncation and the stream reader\<close>

lemmas string_defs = lit_def NL_def ELLIPSIS_def ESC_def

lemmas classifier_defs = prepare_chunk_def guarded_rules_def strip_def isspace_def
  startswith_def msgtype_def playbook_of_def msg_of_def Let_def

lemma split_on_not_Nil: "split_on sep s \<noteq> []"
  by (induction s) (auto split: list.splits)

lemma hd_split_on: "hd (split_on sep s) = takeWhile (\<lambda>c. c \<noteq> sep) s"
  using split_on_not_Nil by (induction s) (auto split: list.splits)

lemma prefix_takeWhile_iff:
  "sep \<notin> set p \<Longrightarrow> prefix p (takeWhile (\<lambda>c. c \<noteq> sep) s) = prefix p s"
proof (induction p arbitrary: s)
  case Nil
  then show ?case by simp
next
  case (Cons a p)
  then show ?case by (cases s) auto
qed

lemma startswith_first_line:
  "startswith (first_line chunk) (lit ''TASK'') = startswith chunk (lit ''TASK'')"
  unfolding startswith_def first_line_def hd_split_on
  by (rule prefix_takeWhile_iff) (simp add: string_defs)

text \<open>
  A chunk that holds the marker on its only line, followed by the blank line that ends
  the chunk, is not a RECAP: the test for the marker stands inside the block guarded by
  \<open>len(lines) >= 2\<close>, and this chunk ends as MSG.
\<close>

theorem recap_single_line_counterexample:
  "contains (lit ''PLAY RECAP'') (lit ''PLAY RECAP **'' @ [NL, NL]) \<and>
   length (split_on NL (strip (lit ''PLAY RECAP **'' @ [NL, NL]))) < 2 \<and>
   msgtype (prepare_chunk (lit ''a.yml'') (lit ''PLAY RECAP **'' @ [NL, NL])) = MSG"
  by (simp add: classifier_defs string_defs)

text \<open>
  Claim C4, amended: every chunk that contains the marker \<open>PLAY RECAP\<close> and whose
  trimmed line list has at least two entries is classified RECAP, whatever keywords its
  second line holds; the marker is the first test inside the guard.
\<close>

theorem prepare_chunk_recap:
  "contains (lit ''PLAY RECAP'') chunk \<Longrightarrow> 2 \<le> length (split_on NL (strip chunk)) \<Longrightarrow>
   prepare_chunk playbook chunk = (RECAP, playbook, chunk)"
  by (simp add: prepare_chunk_def guarded_rules_def)

theorem prepare_chunk_recap_witness:
  "contains (lit ''PLAY RECAP'') (lit ''PLAY RECAP **'' @ [NL] @ lit ''h : ok=1'' @ [NL, NL]) \<and>
   2 \<le> length (split_on NL (strip (lit ''PLAY RECAP **'' @ [NL] @ lit ''h : ok=1'' @ [NL, NL]))) \<and>
   prepare_chunk (lit ''a.yml'') (lit ''PLAY RECAP **'' @ [NL] @ lit ''h : ok=1'' @ [NL, NL]) =
     (RECAP, lit ''a.yml'', lit ''PLAY RECAP **'' @ [NL] @ lit ''h : ok=1'' @ [NL, NL])"
proof -
  have a: "contains (lit ''PLAY RECAP'')
             (lit ''PLAY RECAP **'' @ [NL] @ lit ''h : ok=1'' @ [NL, NL])"
    by (simp add: string_defs)
  have b: "2 \<le> length (split_on NL (strip
             (lit ''PLAY RECAP **'' @ [NL] @ lit ''h : ok=1'' @ [NL, NL])))"
    by (simp add: string_defs strip_def isspace_def)
  from a b prepare_chunk_recap [OF a b, of "lit ''a.yml''"] show ?thesis by blast
qed

lemma rules_2_to_8_not_RECAP: "rules_2_to_8 chunk \<noteq> RECAP"
  by (simp add: rules_2_to_8_def rules_6_to_8_def Let_def)

text \<open>
  Claim C5: \<open>prepare_chunk\<close> classifies a chunk RECAP exactly when the chunk
  contains the marker and its trimmed line list has at least two entries. Every other
  chunk gets the kind of the first rule that matches, in the order ok, changed, failed or
  fatal, unreachable (all four on the second entry of the trimmed line list, and skipped
  when that list has fewer than two entries), then TASK at the start of the first line,
  then \<open>ERROR!\<close>, then MSG. The single line \<open>TASK [x]\<close> is a TASK, the single
  line \<open>random text\<close> a MSG.
\<close>

theorem prepare_chunk_rules_in_order:
  "(msgtype (prepare_chunk playbook chunk) = RECAP \<longleftrightarrow>
      contains (lit ''PLAY RECAP'') chunk \<and> 2 \<le> length (split_on NL (strip chunk))) \<and>
   (\<not> (contains (lit ''PLAY RECAP'') chunk \<and> 2 \<le> length (split_on NL (strip chunk))) \<longrightarrow>
      prepare_chunk playbook chunk = (rules_2_to_8 chunk, playbook, chunk)) \<and>
   prepare_chunk playbook (lit ''TASK [x]'') = (TASK, playbook, lit ''TASK [x]'') \<and>
   prepare_chunk playbook (lit ''random text'') = (MSG, playbook, lit ''random text'')"
proof -
  have other: "prepare_chunk playbook chunk = (rules_2_to_8 chunk, playbook, chunk)"
    if "\<not> (contains (lit ''PLAY RECAP'') chunk \<and> 2 \<le> length (split_on NL (strip chunk)))"
    using that
    unfolding prepare_chunk_def rules_2_to_8_def rules_6_to_8_def guarded_rules_def Let_def
      startswith_first_line
    by (auto split: if_splits)
  have recap: "msgtype (prepare_chunk playbook chunk) = RECAP \<longleftrightarrow>
      contains (lit ''PLAY RECAP'') chunk \<and> 2 \<le> length (split_on NL (strip chunk))"
  proof
    assume r: "msgtype (prepare_chunk playbook chunk) = RECAP"
    show "contains (lit ''PLAY RECAP'') chunk \<and> 2 \<le> length (split_on NL (strip chunk))"
    proof (rule ccontr)
      assume "\<not> (contains (lit ''PLAY RECAP'') chunk \<and>
        2 \<le> length (split_on NL (strip chunk)))"
      from other [OF this] r rules_2_to_8_not_RECAP [of chunk] show False
        by (simp add: msgtype_def)
    qed
  next
    assume "contains (lit ''PLAY RECAP'') chunk \<and> 2 \<le> length (split_on NL (strip chunk))"
    then show "msgtype (prepare_chunk playbook chunk) = RECAP"
      by (simp add: prepare_chunk_def guarded_rules_def msgtype_def)
  qed
  have t: "prepare_chunk playbook (lit ''TASK [x]'') = (TASK, playbook, lit ''TASK [x]'')"
    by (simp add: classifier_defs string_defs)
  have m: "prepare_chunk playbook (lit ''random text'') = (MSG, playbook, lit ''random text'')"
    by (simp add: classifier_defs string_defs)
  from recap other t m show ?thesis by blast
qed

theorem prepare_chunk_rules_in_order_witness:
  "\<not> contains (lit ''PLAY RECAP'') (lit ''TASK [x]'' @ [NL] @ lit ''changed: [h]'' @ [NL, NL]) \<and>
   rules_2_to_8 (lit ''TASK [x]'' @ [NL] @ lit ''changed: [h]'' @ [NL, NL]) = CHANGED \<and>
   prepare_chunk (lit ''a.yml'') (lit ''TASK [x]'' @ [NL] @ lit ''changed: [h]'' @ [NL, NL]) =
     (CHANGED, lit ''a.yml'', lit ''TASK [x]'' @ [NL] @ lit ''changed: [h]'' @ [NL, NL]) \<and>
   rules_2_to_8 (lit ''TASK [x]'' @ [NL] @ lit ''unreachable: [h]'' @ [NL, NL]) = UNREACHABLE \<and>
   prepare_chunk (lit ''a.yml'') (lit ''TASK [x]'' @ [NL] @ lit ''unreachable: [h]'' @ [NL, NL]) =
     (UNREACHABLE, lit ''a.yml'', lit ''TASK [x]'' @ [NL] @ lit ''unreachable: [h]'' @ [NL, NL])"
proof -
  let ?c = "lit ''TASK [x]'' @ [NL] @ lit ''changed: [h]'' @ [NL, NL]"
  let ?u = "lit ''TASK [x]'' @ [NL] @ lit ''unreachable: [h]'' @ [NL, NL]"
  have nc: "\<not> contains (lit ''PLAY RECAP'') ?c" by (simp add: string_defs)
  have nu: "\<not> contains (lit ''PLAY RECAP'') ?u" by (simp add: string_defs)
  have rc: "rules_2_to_8 ?c = CHANGED"
    by (simp add: rules_2_to_8_def strip_def isspace_def string_defs)
  have ru: "rules_2_to_8 ?u = UNREACHABLE"
    by (simp add: rules_2_to_8_def strip_def isspace_def string_defs)
  from prepare_chunk_rules_in_order [of "lit ''a.yml''" ?c] nc rc
  have pc: "prepare_chunk (lit ''a.yml'') ?c = (CHANGED, lit ''a.yml'', ?c)" by simp
  from prepare_chunk_rules_in_order [of "lit ''a.yml''" ?u] nu ru
  have pu: "prepare_chunk (lit ''a.yml'') ?u = (UNREACHABLE, lit ''a.yml'', ?u)" by simp
  from nc rc pc ru pu show ?thesis by blast
qed

text \<open>
  With no column left, \<open>max_width - 1\<close> is negative and the slice counts from the end:
  a string of three characters comes back three characters long, not zero.
\<close>

theorem truncate_zero_width_counterexample:
  "0 < int (length (lit ''abc'')) \<and> truncate_str (lit ''abc'') 0 = lit ''ab'' @ [ELLIPSIS] \<and>
   int (length (truncate_str (lit ''abc'') 0)) \<noteq> 0"
  by (simp add: truncate_str_def slice_to_def string_defs)

text \<open>
  Claim C7, amended: a string no longer than the available width is returned unchanged,
  for every width; a string longer than an available width of at least 1 is returned with
  length exactly that width, its last character the ellipsis and before it the first
  width - 1 characters of the string.
\<close>

theorem truncate_str_width:
  "(int (length s) \<le> w \<longrightarrow> truncate_str s w = s) \<and>
   (1 \<le> w \<and> w < int (length s) \<longrightarrow>
      int (length (truncate_str s w)) = w \<and> last (truncate_str s w) = ELLIPSIS \<and>
      butlast (truncate_str s w) = take (nat (w - 1)) s)"
  by (auto simp: truncate_str_def slice_to_def)

theorem truncate_str_width_witness:
  "(1::int) \<le> 3 \<and> 3 < int (length (lit ''abcde'')) \<and>
   truncate_str (lit ''abcde'') 3 = lit ''ab'' @ [ELLIPSIS] \<and>
   int (length (lit ''abc'')) \<le> 3 \<and> truncate_str (lit ''abc'') 3 = lit ''abc''"
  using truncate_str_width [of "lit ''abcde''" 3] truncate_str_width [of "lit ''abc''" 3]
  by (simp add: truncate_str_def slice_to_def string_defs)

lemma read_loop_buffer:
  "\<forall>l \<in> set ls. l \<noteq> [] \<and> l \<noteq> [NL] \<Longrightarrow>
   read_loop playbook task (ls @ rest) = read_loop playbook (task @ ls) rest"
  by (induction ls arbitrary: task) auto

text \<open>
  Claim C6: the lines read are kept in the buffer \<open>task\<close>; when a blank line is read,
  the buffer and the blank line go out as one classified chunk and the buffer is empty
  again; at the end of the stream a buffer that is not empty goes out as a last chunk,
  with no blank line added.
\<close>

theorem read_loop_chunks:
  assumes "\<forall>l \<in> set ls. l \<noteq> [] \<and> l \<noteq> [NL]"
  shows "read_loop playbook task (ls @ [NL] # rest) =
           prepare_chunk playbook (concat (task @ ls) @ [NL]) # read_loop playbook [] rest \<and>
         read_loop playbook task ls =
           (if task @ ls \<noteq> [] then [prepare_chunk playbook (concat (task @ ls))] else [])"
  using read_loop_buffer [OF assms, of playbook task "[NL] # rest"]
    read_loop_buffer [OF assms, of playbook task "[]"]
  by simp

theorem read_loop_chunks_witness:
  "lit ''TASK [x]'' @ [NL] \<noteq> [] \<and> lit ''TASK [x]'' @ [NL] \<noteq> [NL] \<and>
   lit ''ok: [h]'' @ [NL] \<noteq> [] \<and> lit ''ok: [h]'' @ [NL] \<noteq> [NL] \<and>
   read_loop (lit ''a'') [] ([lit ''TASK [x]'' @ [NL], lit ''ok: [h]'' @ [NL]] @ [NL] # [lit ''bye'']) =
     [prepare_chunk (lit ''a'') (lit ''TASK [x]'' @ [NL] @ lit ''ok: [h]'' @ [NL] @ [NL]),
      prepare_chunk (lit ''a'') (lit ''bye'')]"
proof -
  have h: "\<forall>l \<in> set [lit ''TASK [x]'' @ [NL], lit ''ok: [h]'' @ [NL]]. l \<noteq> [] \<and> l \<noteq> [NL]"
    by (simp add: string_defs)
  have e: "read_loop (lit ''a'') [] [lit ''bye''] = [prepare_chunk (lit ''a'') (lit ''bye'')]"
    by (simp add: string_defs)
  from read_loop_chunks [OF h, of "lit ''a''" "[]" "[lit ''bye'']"] h e
  show ?thesis by simp
qed

section \<open>Properties of the live renderer\<close>

lemma index_of_mem: "x \<in> set xs \<Longrightarrow> \<exists>p. index_of xs x = Some p \<and> p < length xs"
  by (induction xs) auto

text \<open>
  Claim C9: for an event of kind OK, CHANGED or UNREACHABLE of a playbook of the run,
  the pass of the loop writes the four cursor movements and nothing between them, and
  leaves \<open>starts\<close>, \<open>ends\<close>, \<open>recaps\<close> and \<open>currently_running\<close> as they were.
  Over all kinds, \<open>recaps\<close> grows for RECAP and ERROR only, and the three writes of a
  lane text (erase, attributes off, text) are made for START, TASK and DONE only.
\<close>

theorem show_event_no_lane_text:
  assumes "playbook \<in> set pbs" and "k \<in> {OK, CHANGED, UNREACHABLE}"
  shows "(\<exists>position r'.
           index_of pbs playbook = Some position \<and>
           show_event pbs cols now (k, playbook, msg) r = Inr r' \<and>
           starts r' = starts r \<and> ends r' = ends r \<and> recaps r' = recaps r \<and>
           currently_running r' = currently_running r \<and>
           stream r' = stream r @
             [cursor_up (int (length pbs) - int position),
              cursor_right (int (longest_name r) + 2),
              cursor_down (int (length pbs) - int position),
              cursor_left (cols + 1)]) \<and>
         (\<forall>k' r'. show_event pbs cols now (k', playbook, msg) r = Inr r' \<longrightarrow>
            recaps r' =
              (if k' = RECAP \<or> k' = ERROR then recaps_append (recaps r) playbook msg
               else recaps r) \<and>
            length (stream r') =
              (if k' = START \<or> k' = TASK \<or> k' = DONE then length (stream r) + 7
               else length (stream r) + 4))"
proof -
  from index_of_mem [OF assms(1)] obtain p where p: "index_of pbs playbook = Some p"
    by blast
  from assms(2) have k: "k \<noteq> START" "k \<noteq> DONE" "k \<noteq> RECAP" "k \<noteq> TASK" "k \<noteq> ERROR"
    by auto
  have a: "\<exists>position r'.
           index_of pbs playbook = Some position \<and>
           show_event pbs cols now (k, playbook, msg) r = Inr r' \<and>
           starts r' = starts r \<and> ends r' = ends r \<and> recaps r' = recaps r \<and>
           currently_running r' = currently_running r \<and>
           stream r' = stream r @
             [cursor_up (int (length pbs) - int position),
              cursor_right (int (longest_name r) + 2),
              cursor_down (int (length pbs) - int position),
              cursor_left (cols + 1)]"
    by (simp add: show_event_def p k Let_def stream_write_def)
  have b: "recaps r' =
              (if k' = RECAP \<or> k' = ERROR then recaps_append (recaps r) playbook msg
               else recaps r) \<and>
            length (stream r') =
              (if k' = START \<or> k' = TASK \<or> k' = DONE then length (stream r) + 7
               else length (stream r) + 4)"
    if "show_event pbs cols now (k', playbook, msg) r = Inr r'" for k' r'
    using that
    by (cases k') (auto simp: show_event_def p Let_def stream_write_def split: if_splits)
  from a b show ?thesis by blast
qed

theorem show_event_no_lane_text_witness:
  "lit ''b'' \<in> set [lit ''a'', lit ''b''] \<and> CHANGED \<in> {OK, CHANGED, UNREACHABLE} \<and>
   (\<exists>r'. show_event [lit ''a'', lit ''b''] 80 7 (CHANGED, lit ''b'', lit ''x'')
            \<lparr>recaps = [], starts = Map.empty, ends = Map.empty, currently_running = [],
             frameno = 0, longest_name = 1, stream = []\<rparr> = Inr r' \<and>
         recaps r' = [] \<and> currently_running r' = [] \<and>
         stream r' = [cursor_up 1, cursor_right 3, cursor_down 1, cursor_left 81])"
proof -
  have a: "lit ''b'' \<in> set [lit ''a'', lit ''b'']" by simp
  have b: "CHANGED \<in> {OK, CHANGED, UNREACHABLE}" by simp
  have i: "index_of [lit ''a'', lit ''b''] (lit ''b'') = Some 1"
    by (simp add: string_defs)
  from show_event_no_lane_text [OF a b, of 80 7 "lit ''x''"
      "\<lparr>recaps = [], starts = Map.empty, ends = Map.empty, currently_running = [],
        frameno = 0, longest_name = 1, stream = []\<rparr>"] a b i
  show ?thesis by auto
qed

section \<open>Invariants of the runs\<close>

lemma job_step_cases:
  assumes "job_step c i s = Some s'"
  obtains
    (cancel_waiting) "i < length (jobs s)" "jobs s ! i = Waiting" "amain s = Raised"
      "s' = s\<lparr>jobs := (jobs s)[i := Cancelled]\<rparr>"
  | (acquire) "i < length (jobs s)" "jobs s ! i = Waiting" "amain s \<noteq> Raised" "0 < permits s"
      "s' = s\<lparr>permits := permits s - 1,
               jobs := (jobs s)[i := Running (job_events c i) (job_outcome c i)]\<rparr>"
  | (cancel_running) evs oc where "i < length (jobs s)" "jobs s ! i = Running evs oc"
      "amain s = Raised" "s' = s\<lparr>permits := permits s + 1, jobs := (jobs s)[i := Cancelled]\<rparr>"
  | (leave) oc where "i < length (jobs s)" "jobs s ! i = Running [] oc" "amain s \<noteq> Raised"
      "s' = s\<lparr>permits := permits s + 1, jobs := (jobs s)[i := Finished oc]\<rparr>"
  | (put) e rest oc where "i < length (jobs s)" "jobs s ! i = Running (e # rest) oc"
      "amain s \<noteq> Raised"
      "s' = s\<lparr>queue := queue s @ [Some e], sent := sent s @ [(i, e)],
               jobs := (jobs s)[i := Running rest oc]\<rparr>"
proof (cases "jobs s ! i")
  case Waiting
  with assms show ?thesis
    using cancel_waiting acquire
    by (auto simp: job_step_def job_events_def job_outcome_def split: if_splits prod.splits)
next
  case (Running evs oc)
  with assms show ?thesis
    using cancel_running [of evs oc] leave [of oc] put
    by (cases evs) (auto simp: job_step_def split: if_splits)
next
  case (Finished x3)
  with assms show ?thesis by (auto simp: job_step_def split: if_splits)
next
  case Cancelled
  with assms show ?thesis by (auto simp: job_step_def split: if_splits)
qed

lemma printer_step_cases:
  assumes "printer_step c now s = Some s'"
  obtains
    (stop) r where "printer s = Printing r" "amain s = Raised"
      "s' = s\<lparr>printer := Stopped (stream_write ENABLE_CURSOR r)\<rparr>"
  | (finish) r q where "printer s = Printing r" "amain s \<noteq> Raised" "queue s = None # q"
      "s' = s\<lparr>queue := q,
               printer := (case show_finish (fmt_secs c) r of
                             Inl (e, r') \<Rightarrow> Crashed e r' | Inr r' \<Rightarrow> Printed r')\<rparr>"
  | (event) r ev q where "printer s = Printing r" "amain s \<noteq> Raised" "queue s = Some ev # q"
      "s' = s\<lparr>queue := q,
               printer := (case show_event (playbooks c) (columns c) now ev r of
                             Inl (e, r') \<Rightarrow> Crashed e (stream_write ENABLE_CURSOR r')
                           | Inr r' \<Rightarrow> Printing r')\<rparr>"
  using assms
  by (auto simp: printer_step_def split: printer.splits if_splits list.splits option.splits)

lemma amain_step_cases:
  assumes "amain_step c s = Some s'"
  obtains
    (raise) e where "amain s = Gathering" "gather (jobs s) = Some (Inl e)"
      "s' = s\<lparr>amain := Raised\<rparr>"
  | (sentinel) rs where "amain s = Gathering" "gather (jobs s) = Some (Inr rs)"
      "s' = s\<lparr>queue := queue s @ [None], amain := AwaitingPrinter\<rparr>"
  | (return) r rs where "amain s = AwaitingPrinter" "printer s = Printed r"
      "gather (jobs s) = Some (Inr rs)" "s' = s\<lparr>amain := Returned (sum_list rs)\<rparr>"
  | (raise_printer) e r where "amain s = AwaitingPrinter" "printer s = Crashed e r"
      "s' = s\<lparr>amain := Raised\<rparr>"
  using assms
  by (auto simp: amain_step_def split: mainst.splits option.splits sum.splits printer.splits)

lemma filter_update_count:
  "i < length xs \<Longrightarrow>
   length (filter P (xs[i := y])) + (if P (xs ! i) then 1 else 0) =
   length (filter P xs) + (if P y then 1 else 0)"
proof (induction xs arbitrary: i)
  case Nil
  then show ?case by simp
next
  case (Cons a xs)
  then show ?case by (cases i) auto
qed

lemma prefix_of_append: "xs @ ys = zs \<Longrightarrow> prefix xs zs"
  by (auto simp: prefix_def)

lemma inv_jobs_nth:
  "inv_jobs c s \<Longrightarrow> i < length (jobs s) \<Longrightarrow>
   job_ok (sent_by i s) (job_events c i) (job_outcome c i) (jobs s ! i)"
  by (simp add: inv_jobs_def)

lemma inv_jobs_job_step:
  assumes "inv_jobs c s" and "job_step c i s = Some s'"
  shows "inv_jobs c s'"
  using assms(2)
proof (cases rule: job_step_cases)
  case cancel_waiting
  with assms(1) inv_jobs_nth [OF assms(1), of i] filter_update_count [of i "jobs s" holds_permit Cancelled]
  show ?thesis
    by (auto simp: inv_jobs_def sent_by_def nth_list_update intro: prefix_of_append)
next
  case acquire
  with assms(1) inv_jobs_nth [OF assms(1), of i] filter_update_count [of i "jobs s" holds_permit
      "Running (job_events c i) (job_outcome c i)"]
  show ?thesis
    by (auto simp: inv_jobs_def sent_by_def nth_list_update intro: prefix_of_append)
next
  case (cancel_running evs oc)
  with assms(1) inv_jobs_nth [OF assms(1), of i] filter_update_count [of i "jobs s" holds_permit Cancelled]
  show ?thesis
    by (auto simp: inv_jobs_def sent_by_def nth_list_update intro: prefix_of_append)
next
  case (leave oc)
  with assms(1) inv_jobs_nth [OF assms(1), of i] filter_update_count [of i "jobs s" holds_permit "Finished oc"]
  show ?thesis
    by (auto simp: inv_jobs_def sent_by_def nth_list_update intro: prefix_of_append)
next
  case (put e rest oc)
  with assms(1) inv_jobs_nth [OF assms(1), of i] filter_update_count [of i "jobs s" holds_permit "Running rest oc"]
  show ?thesis
    by (auto simp: inv_jobs_def sent_by_def nth_list_update intro: prefix_of_append)
qed

lemma inv_jobs_printer_step:
  assumes "inv_jobs c s" and "printer_step c now s = Some s'"
  shows "inv_jobs c s'"
  using assms(2)
  by (cases rule: printer_step_cases) (use assms(1) in \<open>auto simp: inv_jobs_def sent_by_def\<close>)

lemma inv_jobs_amain_step:
  assumes "inv_jobs c s" and "amain_step c s = Some s'"
  shows "inv_jobs c s'"
  using assms(2)
  by (cases rule: amain_step_cases) (use assms(1) in \<open>auto simp: inv_jobs_def sent_by_def\<close>)

lemma inv_jobs_init: "inv_jobs c (init c)"
  by (simp add: inv_jobs_def init_def sent_by_def)

lemma those_result_of: "those (map result_of js) = Some rs \<longleftrightarrow> returned_with rs js"
proof (induction js arbitrary: rs)
  case Nil
  then show ?case by (auto simp: returned_with_def)
next
  case (Cons j js)
  show ?case
  proof (cases "result_of j")
    case None
    then show ?thesis
      by (cases j rule: result_of.cases) (auto simp: returned_with_def)
  next
    case (Some rc)
    then have j: "j = Finished (Inr rc)"
      by (cases j rule: result_of.cases) auto
    show ?thesis
      using Cons.IH j by (cases rs) (auto simp: returned_with_def split: option.splits)
  qed
qed

lemma map_filter_failure_returned:
  "returned_with rs js \<Longrightarrow> List.map_filter failure js = []"
  by (induction rs arbitrary: js) (auto simp: returned_with_def List.map_filter_def)

lemma gather_Inr: "gather js = Some (Inr rs) \<longleftrightarrow> returned_with rs js"
proof
  assume "gather js = Some (Inr rs)"
  then show "returned_with rs js"
    by (auto simp: gather_def those_result_of [symmetric] split: list.splits)
next
  assume r: "returned_with rs js"
  then have "those (map result_of js) = Some rs" by (simp add: those_result_of)
  with map_filter_failure_returned [OF r] show "gather js = Some (Inr rs)"
    by (simp add: gather_def)
qed

lemma failure_Some: "failure j = Some e \<Longrightarrow> j = Finished (Inl e)"
  by (cases j rule: failure.cases) auto

lemma gather_Inl: "gather js = Some (Inl e) \<Longrightarrow> Finished (Inl e) \<in> set js"
proof -
  assume "gather js = Some (Inl e)"
  then obtain es where "List.map_filter failure js = e # es"
    by (auto simp: gather_def split: list.splits)
  then have "e \<in> set (List.map_filter failure js)" by simp
  then obtain j where "j \<in> set js" "failure j = Some e"
    by (auto simp: List.map_filter_def)
  with failure_Some show ?thesis by blast
qed

lemma gather_failed:
  assumes "Finished (Inl e) \<in> set js"
  shows "\<exists>e'. gather js = Some (Inl e')"
proof -
  from assms have "e \<in> set (List.map_filter failure js)"
    by (force simp: List.map_filter_def)
  then obtain e' es where "List.map_filter failure js = e' # es"
    by (cases "List.map_filter failure js") auto
  then show ?thesis by (simp add: gather_def)
qed

lemma returned_with_nth:
  "returned_with rs js \<Longrightarrow> i < length js \<Longrightarrow> js ! i = Finished (Inr (rs ! i))"
  by (simp add: returned_with_def)

lemma set_butlast_tl: "set (butlast q) \<subseteq> set (butlast (x # q))"
  by (cases q) auto

lemma inv_ctl_job_step:
  assumes "inv_ctl s" and "job_step c i s = Some s'"
  shows "inv_ctl s'"
proof -
  have nr: "\<not> returned_with rs (jobs s)" for rs
    using assms(2) returned_with_nth [of rs "jobs s" i]
    by (cases rule: job_step_cases) auto
  with assms(1) have h: "None \<notin> set (queue s)" "amain s = Gathering \<or> amain s = Raised"
      "\<forall>r. printer s \<noteq> Printed r" "None \<notin> set (butlast (queue s))"
    by (auto simp: inv_ctl_def)
  from assms(2) show ?thesis
    by (cases rule: job_step_cases) (use h in \<open>auto simp: inv_ctl_def\<close>)
qed

lemma inv_ctl_printer_step:
  assumes "inv_ctl s" and "printer_step c now s = Some s'"
  shows "inv_ctl s'"
  using assms(2)
proof (cases rule: printer_step_cases)
  case (stop r)
  with assms(1) show ?thesis by (auto simp: inv_ctl_def)
next
  case (finish r q)
  with assms(1) set_butlast_tl [of q None] show ?thesis
    by (auto simp: inv_ctl_def)
next
  case (event r ev q)
  with assms(1) set_butlast_tl [of q "Some ev"] show ?thesis
    by (auto simp: inv_ctl_def split: sum.splits prod.splits)
qed

lemma inv_ctl_amain_step:
  assumes "inv_ctl s" and "amain_step c s = Some s'"
  shows "inv_ctl s'"
  using assms(2)
proof (cases rule: amain_step_cases)
  case (raise e)
  with assms(1) show ?thesis by (auto simp: inv_ctl_def)
next
  case (sentinel rs)
  with assms(1) show ?thesis by (auto simp: inv_ctl_def gather_Inr)
next
  case (return r rs)
  with assms(1) show ?thesis by (auto simp: inv_ctl_def gather_Inr)
next
  case (raise_printer e r)
  with assms(1) show ?thesis by (auto simp: inv_ctl_def)
qed

lemma inv_ctl_init: "inv_ctl (init c)"
  by (simp add: inv_ctl_def init_def split: sum.splits prod.splits)

lemma inv_step:
  assumes "inv c s" and "step c a s = Some s'"
  shows "inv c s'"
proof (cases a)
  case (Job i)
  with assms(2) have "job_step c i s = Some s'" by (simp add: step_def)
  with assms(1) show ?thesis
    using inv_jobs_job_step inv_ctl_job_step unfolding inv_def by blast
next
  case (Printer now)
  with assms(2) have "printer_step c now s = Some s'" by (simp add: step_def)
  with assms(1) show ?thesis
    using inv_jobs_printer_step inv_ctl_printer_step unfolding inv_def by blast
next
  case Amain
  with assms(2) have "amain_step c s = Some s'" by (simp add: step_def)
  with assms(1) show ?thesis
    using inv_jobs_amain_step inv_ctl_amain_step unfolding inv_def by blast
qed

lemma inv_exec: "inv c s \<Longrightarrow> exec c sched s = Some s' \<Longrightarrow> inv c s'"
proof (induction sched arbitrary: s)
  case Nil
  then show ?case by simp
next
  case (Cons a sched)
  from Cons.prems(2) obtain s1 where s1: "step c a s = Some s1" "exec c sched s1 = Some s'"
    by (cases "step c a s") auto
  from inv_step [OF Cons.prems(1) s1(1)] Cons.IH s1(2) show ?case by blast
qed

lemma inv_reachable: "exec c sched (init c) = Some s \<Longrightarrow> inv c s"
  using inv_exec [of c "init c" sched s] inv_jobs_init inv_ctl_init by (simp add: inv_def)

section \<open>Properties of the engine\<close>

lemmas run_defs = demo_def init_def step_def job_step_def printer_step_def amain_step_def
  run_playbook_def show_start_def show_event_def show_finish_def gather_def
  List.map_filter_def py_max_def done_event_def stream_write_def cursor_up_def cursor_down_def
  cursor_left_def cursor_right_def str_int_def str_nat.simps truncate_str_def slice_to_def
  ENABLE_CURSOR_def DISABLE_CURSOR_def ERASE_IN_LINE_def ATTRIBUTES_OFF_def report_chunk_def
  observe_def job_events_def job_outcome_def sent_by_def

lemma job_ok_prefix: "job_ok put full oc j \<Longrightarrow> prefix put full"
  by (cases j) (auto intro: prefix_of_append)

lemma prepare_chunk_event:
  "msgtype (prepare_chunk playbook chunk) \<noteq> START \<and>
   msgtype (prepare_chunk playbook chunk) \<noteq> DONE \<and>
   playbook_of (prepare_chunk playbook chunk) = playbook \<and>
   msg_of (prepare_chunk playbook chunk) = chunk"
  by (simp add: prepare_chunk_def guarded_rules_def msgtype_def playbook_of_def msg_of_def
      Let_def split: option.splits)

lemma read_loop_events:
  "e \<in> set (read_loop playbook task ls) \<Longrightarrow> \<exists>chunk. e = prepare_chunk playbook chunk"
  by (induction playbook task ls rule: read_loop.induct) (auto split: if_splits)

lemma read_loop_event:
  assumes "e \<in> set (read_loop playbook task ls)"
  shows "msgtype e \<noteq> START \<and> msgtype e \<noteq> DONE \<and> e = prepare_chunk playbook (msg_of e)"
proof -
  from read_loop_events [OF assms] obtain chunk where "e = prepare_chunk playbook chunk"
    by blast
  with prepare_chunk_event [of playbook chunk] show ?thesis by simp
qed

lemma read_loop_raising_events:
  "e \<in> set (fst (read_loop_raising playbook task ls)) \<Longrightarrow>
   \<exists>chunk. e = prepare_chunk playbook chunk"
proof (induction playbook task ls rule: read_loop_raising.induct)
  case (1 playbook task)
  then show ?case by simp
next
  case (2 playbook task line rest)
  show ?case
  proof (cases "line = []")
    case True
    with 2(3) read_loop_events [of e playbook task "[]"] show ?thesis by simp
  next
    case False
    with 2 show ?thesis by (cases "line = [NL]") (auto split: prod.splits)
  qed
qed

text \<open>
  The shape of what \<open>run_playbook\<close> puts: START, then chunks of the classifier, then
  DONE exactly when it returns an exit code.
\<close>

lemma run_playbook_shape:
  obtains chunks rc where
      "\<forall>e \<in> set chunks. \<exists>chunk. e = prepare_chunk playbook chunk"
      "run_playbook playbook p =
         ((START, playbook, []) # chunks @ [done_event playbook rc], Inr rc)"
    | chunks e where
      "\<forall>e \<in> set chunks. \<exists>chunk. e = prepare_chunk playbook chunk"
      "run_playbook playbook p = ((START, playbook, []) # chunks, Inl e)"
proof (cases p)
  case SpawnFails
  then have "run_playbook playbook p = ((START, playbook, []) # [], Inl SpawnError)"
    by (simp add: run_playbook_def)
  then show ?thesis using that(2) [of "[]" SpawnError] by simp
next
  case (Proc lines rc)
  then have "run_playbook playbook p =
      ((START, playbook, []) # read_loop playbook [] lines @ [done_event playbook rc], Inr rc)"
    by (simp add: run_playbook_def)
  moreover have "\<forall>e \<in> set (read_loop playbook [] lines).
      \<exists>chunk. e = prepare_chunk playbook chunk"
    using read_loop_events by blast
  ultimately show ?thesis using that(1) by blast
next
  case (ReadFails lines rc)
  obtain evs raised where r: "read_loop_raising playbook [] lines = (evs, raised)"
    by (cases "read_loop_raising playbook [] lines")
  with read_loop_raising_events [of _ playbook "[]" lines]
  have c: "\<forall>e \<in> set evs. \<exists>chunk. e = prepare_chunk playbook chunk" by simp
  show ?thesis
  proof (cases raised)
    case True
    with ReadFails r have "run_playbook playbook p = ((START, playbook, []) # evs, Inl ReadError)"
      by (simp add: run_playbook_def)
    with c show ?thesis using that(2) by blast
  next
    case False
    with ReadFails r have "run_playbook playbook p =
        ((START, playbook, []) # evs @ [done_event playbook rc], Inr rc)"
      by (simp add: run_playbook_def)
    with c show ?thesis using that(1) by blast
  qed
qed

lemma chunk_playbook:
  "\<forall>e \<in> set chunks. \<exists>chunk. e = prepare_chunk playbook chunk \<Longrightarrow> e \<in> set chunks \<Longrightarrow>
   playbook_of e = playbook"
  using prepare_chunk_event by metis

lemma job_events_playbook:
  assumes "e \<in> set (job_events c i)"
  shows "playbook_of e = playbooks c ! i"
proof (cases rule: run_playbook_shape [of "playbooks c ! i" "procs c i"])
  case (1 chunks rc)
  with assms consider "e = (START, playbooks c ! i, [])" | "e \<in> set chunks"
    | "e = done_event (playbooks c ! i) rc"
    by (auto simp: job_events_def)
  then show ?thesis
  proof cases
    case 1
    then show ?thesis by (simp add: playbook_of_def)
  next
    case 2
    with chunk_playbook [OF \<open>\<forall>e \<in> set chunks. \<exists>chunk. e = prepare_chunk (playbooks c ! i) chunk\<close>]
    show ?thesis by blast
  next
    case 3
    then show ?thesis by (simp add: done_event_def playbook_of_def)
  qed
next
  case (2 chunks err)
  with assms consider "e = (START, playbooks c ! i, [])" | "e \<in> set chunks"
    by (auto simp: job_events_def)
  then show ?thesis
  proof cases
    case 1
    then show ?thesis by (simp add: playbook_of_def)
  next
    case 2
    with chunk_playbook [OF \<open>\<forall>e \<in> set chunks. \<exists>chunk. e = prepare_chunk (playbooks c ! i) chunk\<close>]
    show ?thesis by blast
  qed
qed

lemma job_events_returned:
  assumes "job_outcome c i = Inr rc"
  shows "procs c i \<noteq> SpawnFails \<and>
         (\<exists>m. (START, playbooks c ! i, m) \<in> set (job_events c i)) \<and>
         (\<exists>m. (DONE, playbooks c ! i, m) \<in> set (job_events c i))"
proof -
  have sp: "procs c i \<noteq> SpawnFails"
    using assms by (auto simp: job_outcome_def run_playbook_def)
  have "\<exists>chunks. job_events c i =
      (START, playbooks c ! i, []) # chunks @ [done_event (playbooks c ! i) rc]"
    using assms
    by (cases rule: run_playbook_shape [of "playbooks c ! i" "procs c i"])
      (auto simp: job_events_def job_outcome_def)
  then obtain chunks where "job_events c i =
      (START, playbooks c ! i, []) # chunks @ [done_event (playbooks c ! i) rc]"
    by blast
  moreover have "\<exists>m. done_event (playbooks c ! i) rc = (DONE, playbooks c ! i, m)"
    by (simp add: done_event_def)
  ultimately show ?thesis using sp by force
qed

lemma exec_inv_jobs: "exec c sched (init c) = Some s \<Longrightarrow> inv_jobs c s"
  using inv_reachable by (simp add: inv_def)

lemma exec_inv_ctl: "exec c sched (init c) = Some s \<Longrightarrow> inv_ctl s"
  using inv_reachable by (simp add: inv_def)

lemma exec_job_ok:
  assumes "exec c sched (init c) = Some s" and "i < length (playbooks c)"
  shows "job_ok (sent_by i s) (job_events c i) (job_outcome c i) (jobs s ! i)"
  using exec_inv_jobs [OF assms(1)] assms(2) by (simp add: inv_jobs_def)



lemma chunk_event:
  "\<forall>e \<in> set chunks. \<exists>chunk. e = prepare_chunk playbook chunk \<Longrightarrow> e \<in> set chunks \<Longrightarrow>
   msgtype e \<noteq> START \<and> msgtype e \<noteq> DONE \<and> e = prepare_chunk playbook (msg_of e)"
  using prepare_chunk_event by metis

lemma done_event_eq:
  "done_event playbook rc =
     (DONE, playbook,
      if rc = 0 then lit ''Done.'' else lit ''Exited with error code: '' @ str_int rc)"
  by (simp add: done_event_def)

lemma job_runs_to_end:
  "i < length (jobs s) \<Longrightarrow> jobs s ! i = Running evs oc \<Longrightarrow> amain s \<noteq> Raised \<Longrightarrow>
   \<exists>s'. exec c (replicate (Suc (length evs)) (Job i)) s = Some s' \<and>
        jobs s' ! i = Finished oc \<and> permits s' = Suc (permits s)"
proof (induction evs arbitrary: s)
  case Nil
  then show ?case by (simp add: step_def job_step_def)
next
  case (Cons e rest)
  let ?s1 = "s\<lparr>queue := queue s @ [Some e], sent := sent s @ [(i, e)],
               jobs := (jobs s)[i := Running rest oc]\<rparr>"
  from Cons.prems have st: "step c (Job i) s = Some ?s1"
    by (simp add: step_def job_step_def)
  from Cons.prems have "i < length (jobs ?s1)" "jobs ?s1 ! i = Running rest oc"
    "amain ?s1 \<noteq> Raised"
    by simp_all
  from Cons.IH [OF this] obtain s' where
    "exec c (replicate (Suc (length rest)) (Job i)) ?s1 = Some s'"
    "jobs s' ! i = Finished oc" "permits s' = Suc (permits ?s1)"
    by blast
  with st show ?case by simp
qed


lemma status_of_IsPrinting: "status_of p = IsPrinting \<Longrightarrow> \<exists>r. p = Printing r"
  by (cases p) simp_all

text \<open>
  Two jobs, one exiting with code 1, the other killed by signal 1 and so with code -1:
  both failed, and \<open>amain\<close> returns 0.
\<close>

theorem sum_zero_with_failures_counterexample:
  "map_option observe
     (exec (demo [lit ''a'', lit ''b''] [Proc [] 1, Proc [] (- 1)] 5)
        [Job 0, Job 0, Job 0, Job 0, Job 1, Job 1, Job 1, Job 1, Amain,
         Printer 1, Printer 2, Printer 3, Printer 4, Printer 5, Amain]
        (init (demo [lit ''a'', lit ''b''] [Proc [] 1, Proc [] (- 1)] 5))) =
   Some (5, [Finished (Inr 1), Finished (Inr (- 1))], [],
         [(0, START, lit ''a'', []),
          (0, DONE, lit ''a'', lit ''Exited with error code: 1''),
          (1, START, lit ''b'', []),
          (1, DONE, lit ''b'', lit ''Exited with error code: -1'')],
         IsPrinted, Returned 0)"
  by (simp add: run_defs classifier_defs string_defs)

text \<open>
  Claim C1, amended: when \<open>amain\<close> returns, every job has returned from
  \<open>run_playbook\<close> and the value returned is the sum of the exit codes that
  \<open>run_playbook\<close> returned for the jobs; when no exit code is negative, the sum is
  zero if and only if every exit code is zero.
\<close>

theorem amain_returns_sum:
  assumes "exec c sched (init c) = Some s" and "amain s = Returned v"
  shows "\<exists>rs. length rs = length (playbooks c) \<and>
           (\<forall>i < length (playbooks c).
              snd (run_playbook (playbooks c ! i) (procs c i)) = Inr (rs ! i)) \<and>
           v = sum_list rs \<and>
           ((\<forall>rc \<in> set rs. 0 \<le> rc) \<longrightarrow> (v = 0 \<longleftrightarrow> (\<forall>rc \<in> set rs. rc = 0)))"
proof -
  note ij = exec_inv_jobs [OF assms(1)]
  note ic = exec_inv_ctl [OF assms(1)]
  from ic assms(2) obtain rs where rs: "returned_with rs (jobs s)" "v = sum_list rs"
    by (auto simp: inv_ctl_def)
  from ij have len: "length (jobs s) = length (playbooks c)" by (simp add: inv_jobs_def)
  with rs(1) have l: "length rs = length (playbooks c)" by (simp add: returned_with_def)
  have r: "\<forall>i < length (playbooks c).
      snd (run_playbook (playbooks c ! i) (procs c i)) = Inr (rs ! i)"
  proof (intro allI impI)
    fix i assume i: "i < length (playbooks c)"
    with returned_with_nth [OF rs(1), of i] len
    have "jobs s ! i = Finished (Inr (rs ! i))" by simp
    with exec_job_ok [OF assms(1) i] show
      "snd (run_playbook (playbooks c ! i) (procs c i)) = Inr (rs ! i)"
      by (simp add: job_outcome_def)
  qed
  have z: "(\<forall>rc \<in> set rs. 0 \<le> rc) \<longrightarrow> (v = 0 \<longleftrightarrow> (\<forall>rc \<in> set rs. rc = 0))"
    using rs(2) by (auto simp: sum_list_nonneg_eq_0_iff)
  from l r rs(2) z show ?thesis by blast
qed

theorem amain_returns_sum_witness:
  "map_option observe
     (exec (demo [lit ''a'', lit ''b'', lit ''c''] [Proc [] 0, Proc [] 0, Proc [] 2] 2)
        [Job 0, Job 1, Job 0, Job 1, Job 0, Job 1, Job 0, Job 2, Job 1, Job 2, Job 2, Job 2,
         Amain, Printer 1, Printer 2, Printer 3, Printer 4, Printer 5, Printer 6, Printer 7,
         Amain]
        (init (demo [lit ''a'', lit ''b'', lit ''c''] [Proc [] 0, Proc [] 0, Proc [] 2] 2))) =
   Some (2, [Finished (Inr 0), Finished (Inr 0), Finished (Inr 2)], [],
         [(0, START, lit ''a'', []), (1, START, lit ''b'', []),
          (0, DONE, lit ''a'', lit ''Done.''), (1, DONE, lit ''b'', lit ''Done.''),
          (2, START, lit ''c'', []),
          (2, DONE, lit ''c'', lit ''Exited with error code: 2'')],
         IsPrinted, Returned 2) \<and>
   (\<exists>s (rs :: int list). exec (demo [lit ''a'', lit ''b'', lit ''c''] [Proc [] 0, Proc [] 0, Proc [] 2] 2)
        [Job 0, Job 1, Job 0, Job 1, Job 0, Job 1, Job 0, Job 2, Job 1, Job 2, Job 2, Job 2,
         Amain, Printer 1, Printer 2, Printer 3, Printer 4, Printer 5, Printer 6, Printer 7,
         Amain]
        (init (demo [lit ''a'', lit ''b'', lit ''c''] [Proc [] 0, Proc [] 0, Proc [] 2] 2)) = Some s \<and>
      amain s = Returned 2 \<and> length rs = 3 \<and> sum_list rs = 2)"
proof -
  let ?c = "demo [lit ''a'', lit ''b'', lit ''c''] [Proc [] 0, Proc [] 0, Proc [] 2] 2"
  let ?sched = "[Job 0, Job 1, Job 0, Job 1, Job 0, Job 1, Job 0, Job 2, Job 1, Job 2, Job 2,
     Job 2, Amain, Printer 1, Printer 2, Printer 3, Printer 4, Printer 5, Printer 6, Printer 7,
     Amain]"
  have ev: "map_option observe (exec ?c ?sched (init ?c)) =
     Some (2, [Finished (Inr 0), Finished (Inr 0), Finished (Inr 2)], [],
         [(0, START, lit ''a'', []), (1, START, lit ''b'', []),
          (0, DONE, lit ''a'', lit ''Done.''), (1, DONE, lit ''b'', lit ''Done.''),
          (2, START, lit ''c'', []),
          (2, DONE, lit ''c'', lit ''Exited with error code: 2'')],
         IsPrinted, Returned 2)"
    by (simp add: run_defs classifier_defs string_defs)
  then obtain s where s: "exec ?c ?sched (init ?c) = Some s" "amain s = Returned 2"
    by (auto simp: observe_def)
  have l: "length (playbooks ?c) = 3" by (simp add: demo_def)
  from amain_returns_sum [OF s] obtain rs :: "int list"
    where rs: "length rs = length (playbooks ?c)" "2 = sum_list rs"
    by blast
  from rs l have "length rs = 3" "sum_list rs = 2" by simp_all
  with ev s show ?thesis by blast
qed

text \<open>
  The process is spawned; a line, a blank line and a third line are read, and the next
  read raises (\<open>readline\<close> on a line longer than the limit of the stream, or
  \<open>decode\<close> on bytes that are not UTF-8). The exception leaves \<open>run_playbook\<close>:
  the job has put its START and the one chunk that was complete, and it never puts a DONE.
\<close>

theorem read_failure_no_done_counterexample:
  "procs (demo [lit ''a''] [ReadFails [lit ''TASK [x]'' @ [NL], [NL], lit ''oops'' @ [NL]] 0] 5) 0 =
     ReadFails [lit ''TASK [x]'' @ [NL], [NL], lit ''oops'' @ [NL]] 0 \<and>
   map_option observe
     (exec (demo [lit ''a''] [ReadFails [lit ''TASK [x]'' @ [NL], [NL], lit ''oops'' @ [NL]] 0] 5)
        [Job 0, Job 0, Job 0, Job 0]
        (init (demo [lit ''a''] [ReadFails [lit ''TASK [x]'' @ [NL], [NL], lit ''oops'' @ [NL]] 0] 5))) =
   Some (5, [Finished (Inl ReadError)],
         [Some (START, lit ''a'', []), Some (TASK, lit ''a'', lit ''TASK [x]'' @ [NL, NL])],
         [(0, START, lit ''a'', []), (0, TASK, lit ''a'', lit ''TASK [x]'' @ [NL, NL])],
         IsPrinting, Gathering)"
  by (simp add: run_defs classifier_defs string_defs)

text \<open>
  Claim C2, amended: the events of a job are one START with an empty message, put before
  the spawn, then the classified chunks (none of them a START or a DONE) and, when
  \<open>run_playbook\<close> returns an exit code, one DONE last, whose message is
  \<open>Done.\<close> for exit code zero and names the exit code otherwise. When
  \<open>run_playbook\<close> raises, because the spawn or a later read failed, START and the
  chunks are all there is, and no DONE. A process whose output is read to its end gives
  the sequence with the DONE; a failed spawn gives the START alone. In every state of every
  run, whatever the other tasks did in between and also when the job was cancelled, the
  events the job has put so far are a prefix of its sequence, and all of it once the job
  has finished.
\<close>

theorem run_playbook_event_order:
  assumes "exec c sched (init c) = Some s" and "i < length (playbooks c)"
  shows "(\<exists>chunks.
            (\<forall>e \<in> set chunks. msgtype e \<noteq> START \<and> msgtype e \<noteq> DONE \<and>
               e = prepare_chunk (playbooks c ! i) (msg_of e)) \<and>
            ((\<exists>rc. job_outcome c i = Inr rc \<and>
                job_events c i =
                  (START, playbooks c ! i, []) # chunks @
                  [(DONE, playbooks c ! i,
                    if rc = 0 then lit ''Done.''
                    else lit ''Exited with error code: '' @ str_int rc)]) \<or>
             (\<exists>e. job_outcome c i = Inl e \<and>
                job_events c i = (START, playbooks c ! i, []) # chunks))) \<and>
         prefix (sent_by i s) (job_events c i) \<and>
         (\<forall>outcome. jobs s ! i = Finished outcome \<longrightarrow>
            outcome = job_outcome c i \<and> sent_by i s = job_events c i) \<and>
         (\<forall>lines rc. procs c i = Proc lines rc \<longrightarrow>
            job_outcome c i = Inr rc \<and>
            job_events c i =
              (START, playbooks c ! i, []) # read_loop (playbooks c ! i) [] lines @
              [(DONE, playbooks c ! i,
                if rc = 0 then lit ''Done.''
                else lit ''Exited with error code: '' @ str_int rc)]) \<and>
         (procs c i = SpawnFails \<longrightarrow>
            job_outcome c i = Inl SpawnError \<and> job_events c i = [(START, playbooks c ! i, [])])"
proof -
  note ok = exec_job_ok [OF assms(1) assms(2)]
  have shape: "\<exists>chunks.
      (\<forall>e \<in> set chunks. msgtype e \<noteq> START \<and> msgtype e \<noteq> DONE \<and>
         e = prepare_chunk (playbooks c ! i) (msg_of e)) \<and>
      ((\<exists>rc. job_outcome c i = Inr rc \<and>
          job_events c i =
            (START, playbooks c ! i, []) # chunks @
            [(DONE, playbooks c ! i,
              if rc = 0 then lit ''Done.''
              else lit ''Exited with error code: '' @ str_int rc)]) \<or>
       (\<exists>e. job_outcome c i = Inl e \<and>
          job_events c i = (START, playbooks c ! i, []) # chunks))"
  proof (cases rule: run_playbook_shape [of "playbooks c ! i" "procs c i"])
    case (1 chunks rc)
    from chunk_event [OF 1(1)]
    have "\<forall>e \<in> set chunks. msgtype e \<noteq> START \<and> msgtype e \<noteq> DONE \<and>
         e = prepare_chunk (playbooks c ! i) (msg_of e)" by blast
    moreover from 1(2) have "job_outcome c i = Inr rc \<and>
          job_events c i =
            (START, playbooks c ! i, []) # chunks @
            [(DONE, playbooks c ! i,
              if rc = 0 then lit ''Done.''
              else lit ''Exited with error code: '' @ str_int rc)]"
      by (simp add: job_outcome_def job_events_def done_event_eq)
    ultimately show ?thesis by blast
  next
    case (2 chunks e)
    from chunk_event [OF 2(1)]
    have "\<forall>e \<in> set chunks. msgtype e \<noteq> START \<and> msgtype e \<noteq> DONE \<and>
         e = prepare_chunk (playbooks c ! i) (msg_of e)" by blast
    moreover from 2(2) have "job_outcome c i = Inl e \<and>
          job_events c i = (START, playbooks c ! i, []) # chunks"
      by (simp add: job_outcome_def job_events_def)
    ultimately show ?thesis by blast
  qed
  have fin: "\<forall>outcome. jobs s ! i = Finished outcome \<longrightarrow>
      outcome = job_outcome c i \<and> sent_by i s = job_events c i"
    using ok by auto
  have pr: "\<forall>lines rc. procs c i = Proc lines rc \<longrightarrow>
            job_outcome c i = Inr rc \<and>
            job_events c i =
              (START, playbooks c ! i, []) # read_loop (playbooks c ! i) [] lines @
              [(DONE, playbooks c ! i,
                if rc = 0 then lit ''Done.''
                else lit ''Exited with error code: '' @ str_int rc)]"
    by (simp add: job_outcome_def job_events_def run_playbook_def done_event_eq)
  have sp: "procs c i = SpawnFails \<longrightarrow>
      job_outcome c i = Inl SpawnError \<and> job_events c i = [(START, playbooks c ! i, [])]"
    by (simp add: job_outcome_def job_events_def run_playbook_def)
  from shape job_ok_prefix [OF ok] fin pr sp show ?thesis by blast
qed

theorem run_playbook_event_order_witness:
  "map_option observe
     (exec (demo [lit ''a'', lit ''b''] [Proc [lit ''TASK [x]'' @ [NL], [NL]] 0, Proc [] 2] 2)
        [Job 0, Job 1, Job 0, Job 1, Job 0, Job 1, Job 0, Job 0, Job 1]
        (init (demo [lit ''a'', lit ''b''] [Proc [lit ''TASK [x]'' @ [NL], [NL]] 0, Proc [] 2] 2))) =
   Some (2, [Finished (Inr 0), Finished (Inr 2)],
         [Some (START, lit ''a'', []), Some (START, lit ''b'', []),
          Some (TASK, lit ''a'', lit ''TASK [x]'' @ [NL, NL]),
          Some (DONE, lit ''b'', lit ''Exited with error code: 2''),
          Some (DONE, lit ''a'', lit ''Done.'')],
         [(0, START, lit ''a'', []), (1, START, lit ''b'', []),
          (0, TASK, lit ''a'', lit ''TASK [x]'' @ [NL, NL]),
          (1, DONE, lit ''b'', lit ''Exited with error code: 2''),
          (0, DONE, lit ''a'', lit ''Done.'')],
         IsPrinting, Gathering) \<and>
   (\<exists>s. exec (demo [lit ''a'', lit ''b''] [Proc [lit ''TASK [x]'' @ [NL], [NL]] 0, Proc [] 2] 2)
        [Job 0, Job 1, Job 0, Job 1, Job 0, Job 1, Job 0, Job 0, Job 1]
        (init (demo [lit ''a'', lit ''b''] [Proc [lit ''TASK [x]'' @ [NL], [NL]] 0, Proc [] 2] 2)) = Some s \<and>
      jobs s ! 0 = Finished (Inr 0) \<and>
      sent_by 0 s =
        [(START, lit ''a'', []), (TASK, lit ''a'', lit ''TASK [x]'' @ [NL, NL]),
         (DONE, lit ''a'', lit ''Done.'')])"
proof -
  let ?c = "demo [lit ''a'', lit ''b''] [Proc [lit ''TASK [x]'' @ [NL], [NL]] 0, Proc [] 2] 2"
  let ?sched = "[Job 0, Job 1, Job 0, Job 1, Job 0, Job 1, Job 0, Job 0, Job 1]"
  have ev: "map_option observe (exec ?c ?sched (init ?c)) =
     Some (2, [Finished (Inr 0), Finished (Inr 2)],
         [Some (START, lit ''a'', []), Some (START, lit ''b'', []),
          Some (TASK, lit ''a'', lit ''TASK [x]'' @ [NL, NL]),
          Some (DONE, lit ''b'', lit ''Exited with error code: 2''),
          Some (DONE, lit ''a'', lit ''Done.'')],
         [(0, START, lit ''a'', []), (1, START, lit ''b'', []),
          (0, TASK, lit ''a'', lit ''TASK [x]'' @ [NL, NL]),
          (1, DONE, lit ''b'', lit ''Exited with error code: 2''),
          (0, DONE, lit ''a'', lit ''Done.'')],
         IsPrinting, Gathering)"
    by (simp add: run_defs classifier_defs string_defs)
  then obtain s where s: "exec ?c ?sched (init ?c) = Some s" "jobs s ! 0 = Finished (Inr 0)"
    by (auto simp: observe_def)
  have i: "0 < length (playbooks ?c)" by (simp add: demo_def)
  have p: "procs ?c 0 = Proc [lit ''TASK [x]'' @ [NL], [NL]] 0" by (simp add: demo_def)
  have r: "read_loop (lit ''a'') [] [lit ''TASK [x]'' @ [NL], [NL]] =
      [(TASK, lit ''a'', lit ''TASK [x]'' @ [NL, NL])]"
    by (simp add: classifier_defs string_defs)
  have pb: "playbooks ?c ! 0 = lit ''a''" by (simp add: demo_def)
  note t = run_playbook_event_order [OF s(1) i]
  from t [THEN conjunct2, THEN conjunct2, THEN conjunct1, THEN spec, THEN mp, OF s(2)]
    t [THEN conjunct2, THEN conjunct2, THEN conjunct2, THEN conjunct1, THEN spec, THEN spec,
       THEN mp, OF p]
  have "sent_by 0 s =
      (START, playbooks ?c ! 0, []) # read_loop (playbooks ?c ! 0) [] [lit ''TASK [x]'' @ [NL], [NL]] @
      [(DONE, playbooks ?c ! 0, lit ''Done.'')]"
    by simp
  then have "sent_by 0 s =
        [(START, lit ''a'', []), (TASK, lit ''a'', lit ''TASK [x]'' @ [NL, NL]),
         (DONE, lit ''a'', lit ''Done.'')]"
    unfolding pb r by simp
  with s have "\<exists>s. exec ?c ?sched (init ?c) = Some s \<and> jobs s ! 0 = Finished (Inr 0) \<and>
      sent_by 0 s =
        [(START, lit ''a'', []), (TASK, lit ''a'', lit ''TASK [x]'' @ [NL, NL]),
         (DONE, lit ''a'', lit ''Done.'')]"
    by (intro exI [of _ s] conjI)
  with ev show ?thesis by (rule conjI)
qed




text \<open>
  The spawn of the first job fails while the second job, whose process was spawned, has
  put its START: \<open>gather\<close> raises in \<open>amain\<close>, and the second job and the
  printer are cancelled. The second job never puts its two other events.
\<close>

theorem spawn_failure_cancels_sibling_counterexample:
  "map_option observe
     (exec (demo [lit ''a'', lit ''b''] [SpawnFails, Proc [lit ''TASK [x]'' @ [NL], [NL]] 0] 5)
        [Job 0, Job 0, Job 1, Job 1, Printer 1, Printer 2, Job 0, Amain, Job 1, Printer 3]
        (init (demo [lit ''a'', lit ''b''] [SpawnFails, Proc [lit ''TASK [x]'' @ [NL], [NL]] 0] 5))) =
   Some (5, [Finished (Inl SpawnError), Cancelled], [],
         [(0, START, lit ''a'', []), (1, START, lit ''b'', [])],
         IsStopped, Raised)"
  by (simp add: run_defs classifier_defs string_defs)

text \<open>
  Claim C8, amended: a job whose spawn fails puts its START and nothing else, ends with
  the exception and gives its permit back. The failure is not confined to the job: once
  the job has ended, \<open>gather\<close> raises in \<open>amain\<close>, which neither puts the
  sentinel nor awaits the printer nor returns a sum, so the final report is never
  printed; and once \<open>amain\<close> has raised, the jobs that still wait or run and the
  renderer are cancelled at their next step.
\<close>

theorem spawn_failure_ends_the_run:
  assumes "exec c sched (init c) = Some s"
    and "i < length (playbooks c)"
    and "procs c i = SpawnFails"
  shows "prefix (sent_by i s) [(START, playbooks c ! i, [])] \<and>
         (\<forall>outcome. jobs s ! i = Finished outcome \<longrightarrow>
            outcome = Inl SpawnError \<and> sent_by i s = [(START, playbooks c ! i, [])]) \<and>
         permits s + length (filter holds_permit (jobs s)) = max_playbooks c \<and>
         (\<forall>evs outcome. jobs s ! i = Running evs outcome \<and> amain s \<noteq> Raised \<longrightarrow>
            outcome = Inl SpawnError \<and>
            (\<exists>s'. exec c (replicate (Suc (length evs)) (Job i)) s = Some s' \<and>
               jobs s' ! i = Finished (Inl SpawnError) \<and> permits s' = Suc (permits s))) \<and>
         (amain s = Gathering \<or> amain s = Raised) \<and>
         None \<notin> set (queue s) \<and>
         (\<forall>r. printer s \<noteq> Printed r) \<and>
         ((\<exists>outcome. jobs s ! i = Finished outcome) \<and> amain s = Gathering \<longrightarrow>
            amain_step c s = Some (s\<lparr>amain := Raised\<rparr>)) \<and>
         (amain s = Raised \<longrightarrow>
            amain_step c s = None \<and>
            (\<forall>j < length (jobs s). jobs s ! j = Waiting \<longrightarrow>
               job_step c j s = Some (s\<lparr>jobs := (jobs s)[j := Cancelled]\<rparr>)) \<and>
            (\<forall>j < length (jobs s). \<forall>evs outcome. jobs s ! j = Running evs outcome \<longrightarrow>
               job_step c j s =
                 Some (s\<lparr>permits := permits s + 1, jobs := (jobs s)[j := Cancelled]\<rparr>)) \<and>
            (\<forall>r now. printer s = Printing r \<longrightarrow>
               printer_step c now s =
                 Some (s\<lparr>printer := Stopped (stream_write ENABLE_CURSOR r)\<rparr>)))"
proof -
  note ij = exec_inv_jobs [OF assms(1)]
  note ic = exec_inv_ctl [OF assms(1)]
  from ij have len: "length (jobs s) = length (playbooks c)"
    and p: "permits s + length (filter holds_permit (jobs s)) = max_playbooks c"
    by (simp_all add: inv_jobs_def)
  from assms(3) have ev: "job_events c i = [(START, playbooks c ! i, [])]"
    and oc: "job_outcome c i = Inl SpawnError"
    by (simp_all add: job_events_def job_outcome_def run_playbook_def)
  note ok = exec_job_ok [OF assms(1) assms(2)]
  from job_ok_prefix [OF ok] ev
  have pre: "prefix (sent_by i s) [(START, playbooks c ! i, [])]" by simp
  have fin: "\<forall>outcome. jobs s ! i = Finished outcome \<longrightarrow>
      outcome = Inl SpawnError \<and> sent_by i s = [(START, playbooks c ! i, [])]"
    using ok ev oc by auto
  have run: "\<forall>evs outcome. jobs s ! i = Running evs outcome \<and> amain s \<noteq> Raised \<longrightarrow>
      outcome = Inl SpawnError \<and>
      (\<exists>s'. exec c (replicate (Suc (length evs)) (Job i)) s = Some s' \<and>
         jobs s' ! i = Finished (Inl SpawnError) \<and> permits s' = Suc (permits s))"
  proof (intro allI impI)
    fix evs outcome
    assume a: "jobs s ! i = Running evs outcome \<and> amain s \<noteq> Raised"
    with ok oc have o: "outcome = Inl SpawnError" by simp
    from assms(2) len have "i < length (jobs s)" by simp
    from job_runs_to_end [OF this, of evs outcome c] a o
    show "outcome = Inl SpawnError \<and>
      (\<exists>s'. exec c (replicate (Suc (length evs)) (Job i)) s = Some s' \<and>
         jobs s' ! i = Finished (Inl SpawnError) \<and> permits s' = Suc (permits s))"
      by simp
  qed
  have nr: "\<not> returned_with rs (jobs s)" for rs
  proof
    assume "returned_with rs (jobs s)"
    from returned_with_nth [OF this, of i] assms(2) len
    have "jobs s ! i = Finished (Inr (rs ! i))" by simp
    with fin show False by simp
  qed
  with ic have ctl: "amain s = Gathering \<or> amain s = Raised" "None \<notin> set (queue s)"
      "\<forall>r. printer s \<noteq> Printed r"
    by (auto simp: inv_ctl_def)
  have am: "(\<exists>outcome. jobs s ! i = Finished outcome) \<and> amain s = Gathering \<longrightarrow>
      amain_step c s = Some (s\<lparr>amain := Raised\<rparr>)"
  proof
    assume a: "(\<exists>outcome. jobs s ! i = Finished outcome) \<and> amain s = Gathering"
    with fin have "jobs s ! i = Finished (Inl SpawnError)" by auto
    with assms(2) len nth_mem [of i "jobs s"]
    have "Finished (Inl SpawnError) \<in> set (jobs s)" by simp
    from gather_failed [OF this] obtain e' where "gather (jobs s) = Some (Inl e')" by blast
    with a show "amain_step c s = Some (s\<lparr>amain := Raised\<rparr>)"
      by (simp add: amain_step_def)
  qed
  have cn: "amain s = Raised \<longrightarrow>
      amain_step c s = None \<and>
      (\<forall>j < length (jobs s). jobs s ! j = Waiting \<longrightarrow>
         job_step c j s = Some (s\<lparr>jobs := (jobs s)[j := Cancelled]\<rparr>)) \<and>
      (\<forall>j < length (jobs s). \<forall>evs outcome. jobs s ! j = Running evs outcome \<longrightarrow>
         job_step c j s =
           Some (s\<lparr>permits := permits s + 1, jobs := (jobs s)[j := Cancelled]\<rparr>)) \<and>
      (\<forall>r now. printer s = Printing r \<longrightarrow>
         printer_step c now s =
           Some (s\<lparr>printer := Stopped (stream_write ENABLE_CURSOR r)\<rparr>))"
    by (simp add: amain_step_def job_step_def printer_step_def)
  from pre fin p run ctl am cn show ?thesis by blast
qed

theorem spawn_failure_ends_the_run_witness:
  "map_option observe
     (exec (demo [lit ''a'', lit ''b''] [SpawnFails, Proc [] 0] 5) [Job 0, Job 0]
        (init (demo [lit ''a'', lit ''b''] [SpawnFails, Proc [] 0] 5))) =
   Some (4, [Running [] (Inl SpawnError), Waiting],
         [Some (START, lit ''a'', [])], [(0, START, lit ''a'', [])], IsPrinting, Gathering) \<and>
   map_option observe
     (exec (demo [lit ''a'', lit ''b''] [SpawnFails, Proc [] 0] 5) [Job 0, Job 0, Job 0, Job 1]
        (init (demo [lit ''a'', lit ''b''] [SpawnFails, Proc [] 0] 5))) =
   Some (4, [Finished (Inl SpawnError),
             Running [(START, lit ''b'', []), (DONE, lit ''b'', lit ''Done.'')] (Inr 0)],
         [Some (START, lit ''a'', [])], [(0, START, lit ''a'', [])], IsPrinting, Gathering) \<and>
   map_option observe
     (exec (demo [lit ''a'', lit ''b''] [SpawnFails, Proc [] 0] 5)
        [Job 0, Job 0, Job 0, Job 1, Amain]
        (init (demo [lit ''a'', lit ''b''] [SpawnFails, Proc [] 0] 5))) =
   Some (4, [Finished (Inl SpawnError),
             Running [(START, lit ''b'', []), (DONE, lit ''b'', lit ''Done.'')] (Inr 0)],
         [Some (START, lit ''a'', [])], [(0, START, lit ''a'', [])], IsPrinting, Raised) \<and>
   (\<exists>s. exec (demo [lit ''a'', lit ''b''] [SpawnFails, Proc [] 0] 5) [Job 0, Job 0, Job 0, Job 1]
        (init (demo [lit ''a'', lit ''b''] [SpawnFails, Proc [] 0] 5)) = Some s \<and>
      procs (demo [lit ''a'', lit ''b''] [SpawnFails, Proc [] 0] 5) 0 = SpawnFails \<and>
      jobs s ! 0 = Finished (Inl SpawnError) \<and>
      sent_by 0 s = [(START, lit ''a'', [])] \<and>
      permits s + length (filter holds_permit (jobs s)) = 5 \<and>
      amain_step (demo [lit ''a'', lit ''b''] [SpawnFails, Proc [] 0] 5) s =
        Some (s\<lparr>amain := Raised\<rparr>) \<and>
      None \<notin> set (queue s)) \<and>
   (\<exists>s r. exec (demo [lit ''a'', lit ''b''] [SpawnFails, Proc [] 0] 5)
        [Job 0, Job 0, Job 0, Job 1, Amain]
        (init (demo [lit ''a'', lit ''b''] [SpawnFails, Proc [] 0] 5)) = Some s \<and>
      amain s = Raised \<and> printer s = Printing r \<and>
      amain_step (demo [lit ''a'', lit ''b''] [SpawnFails, Proc [] 0] 5) s = None \<and>
      job_step (demo [lit ''a'', lit ''b''] [SpawnFails, Proc [] 0] 5) 1 s =
        Some (s\<lparr>permits := permits s + 1, jobs := (jobs s)[1 := Cancelled]\<rparr>) \<and>
      printer_step (demo [lit ''a'', lit ''b''] [SpawnFails, Proc [] 0] 5) 0 s =
        Some (s\<lparr>printer := Stopped (stream_write ENABLE_CURSOR r)\<rparr>))"
proof -
  let ?c = "demo [lit ''a'', lit ''b''] [SpawnFails, Proc [] 0] 5"
  have ev1: "map_option observe (exec ?c [Job 0, Job 0] (init ?c)) =
     Some (4, [Running [] (Inl SpawnError), Waiting],
         [Some (START, lit ''a'', [])], [(0, START, lit ''a'', [])], IsPrinting, Gathering)"
    by (simp add: run_defs classifier_defs string_defs)
  have ev2: "map_option observe (exec ?c [Job 0, Job 0, Job 0, Job 1] (init ?c)) =
     Some (4, [Finished (Inl SpawnError),
             Running [(START, lit ''b'', []), (DONE, lit ''b'', lit ''Done.'')] (Inr 0)],
         [Some (START, lit ''a'', [])], [(0, START, lit ''a'', [])], IsPrinting, Gathering)"
    by (simp add: run_defs classifier_defs string_defs)
  have ev3: "map_option observe (exec ?c [Job 0, Job 0, Job 0, Job 1, Amain] (init ?c)) =
     Some (4, [Finished (Inl SpawnError),
             Running [(START, lit ''b'', []), (DONE, lit ''b'', lit ''Done.'')] (Inr 0)],
         [Some (START, lit ''a'', [])], [(0, START, lit ''a'', [])], IsPrinting, Raised)"
    by (simp add: run_defs classifier_defs string_defs)
  have i: "0 < length (playbooks ?c)" by (simp add: demo_def)
  have sp: "procs ?c 0 = SpawnFails" by (simp add: demo_def)
  have pb: "playbooks ?c ! 0 = lit ''a''" by (simp add: demo_def)
  have k: "max_playbooks ?c = 5" by (simp add: demo_def)
  from ev2 obtain s where s: "exec ?c [Job 0, Job 0, Job 0, Job 1] (init ?c) = Some s"
    "jobs s ! 0 = Finished (Inl SpawnError)" "amain s = Gathering"
    by (auto simp: observe_def)
  note t = spawn_failure_ends_the_run [OF s(1) i sp]
  from t [THEN conjunct2, THEN conjunct1, THEN spec, THEN mp, OF s(2)] pb
  have a1: "sent_by 0 s = [(START, lit ''a'', [])]" by simp
  from t [THEN conjunct2, THEN conjunct2, THEN conjunct1] k
  have a2: "permits s + length (filter holds_permit (jobs s)) = 5" by simp
  note a3 = t [THEN conjunct2, THEN conjunct2, THEN conjunct2, THEN conjunct2, THEN conjunct2,
      THEN conjunct1]
  from s(2,3) have "(\<exists>outcome. jobs s ! 0 = Finished outcome) \<and> amain s = Gathering"
    by simp
  note a4 = t [THEN conjunct2, THEN conjunct2, THEN conjunct2, THEN conjunct2, THEN conjunct2,
      THEN conjunct2, THEN conjunct2, THEN conjunct1, THEN mp, OF this]
  have ex1: "\<exists>s. exec ?c [Job 0, Job 0, Job 0, Job 1] (init ?c) = Some s \<and>
      procs ?c 0 = SpawnFails \<and> jobs s ! 0 = Finished (Inl SpawnError) \<and>
      sent_by 0 s = [(START, lit ''a'', [])] \<and>
      permits s + length (filter holds_permit (jobs s)) = 5 \<and>
      amain_step ?c s = Some (s\<lparr>amain := Raised\<rparr>) \<and> None \<notin> set (queue s)"
    using s(1) sp s(2) a1 a2 a4 a3 by (intro exI [of _ s] conjI)
  from ev3 obtain u where u: "exec ?c [Job 0, Job 0, Job 0, Job 1, Amain] (init ?c) = Some u"
    "jobs u = [Finished (Inl SpawnError),
       Running [(START, lit ''b'', []), (DONE, lit ''b'', lit ''Done.'')] (Inr 0)]"
    "amain u = Raised" "status_of (printer u) = IsPrinting"
    by (auto simp: observe_def)
  from status_of_IsPrinting [OF u(4)] obtain r where r: "printer u = Printing r" by blast
  note tu = spawn_failure_ends_the_run [OF u(1) i sp, THEN conjunct2, THEN conjunct2,
      THEN conjunct2, THEN conjunct2, THEN conjunct2, THEN conjunct2, THEN conjunct2,
      THEN conjunct2, THEN mp, OF u(3)]
  note b1 = tu [THEN conjunct1]
  have l: "1 < length (jobs u)" "jobs u ! 1 =
      Running [(START, lit ''b'', []), (DONE, lit ''b'', lit ''Done.'')] (Inr 0)"
    using u(2) by simp_all
  note b2 = tu [THEN conjunct2, THEN conjunct2, THEN conjunct1, THEN spec, THEN mp, OF l(1),
      THEN spec, THEN spec, THEN mp, OF l(2)]
  note b3 = tu [THEN conjunct2, THEN conjunct2, THEN conjunct2, THEN spec, THEN spec,
      THEN mp, OF r, of 0]
  have ex2: "\<exists>s r. exec ?c [Job 0, Job 0, Job 0, Job 1, Amain] (init ?c) = Some s \<and>
      amain s = Raised \<and> printer s = Printing r \<and> amain_step ?c s = None \<and>
      job_step ?c 1 s = Some (s\<lparr>permits := permits s + 1, jobs := (jobs s)[1 := Cancelled]\<rparr>) \<and>
      printer_step ?c 0 s = Some (s\<lparr>printer := Stopped (stream_write ENABLE_CURSOR r)\<rparr>)"
    using u(1,3) r b1 b2 b3 by (intro exI [of _ u] exI [of _ r] conjI)
  from ev1 ev2 ev3 ex1 ex2 show ?thesis by (intro conjI)
qed

section \<open>The final report\<close>

lemma events_simps [simp]:
  "events [] = {}"
  "events (None # q) = events q"
  "events (Some e # q) = insert e (events q)"
  "events (q @ q') = events q \<union> events q'"
  by (auto simp: events_def)

lemma pbs_of_simps [simp]:
  "pbs_of k {} = {}"
  "pbs_of k (insert e E) =
     (if msgtype e = k then insert (playbook_of e) (pbs_of k E) else pbs_of k E)"
  "pbs_of k (A \<union> B) = pbs_of k A \<union> pbs_of k B"
  by (auto simp: pbs_of_def)

lemma show_start_recaps: "show_start pbs = Inr r \<Longrightarrow> recaps r = []"
  by (auto simp: show_start_def py_max_def Let_def split: list.splits)

lemma recaps_append_keys: "fst ` set (recaps_append r k v) = insert k (fst ` set r)"
  by (induction r k v rule: recaps_append.induct) auto

lemma recaps_append_key:
  "(a, b) \<in> set (recaps_append r k v) \<Longrightarrow> a \<noteq> k \<Longrightarrow> a \<in> fst ` set r"
  using recaps_append_keys [of r k v] by force

lemma show_event_effect:
  assumes "show_event pbs cols now ev r = Inr r'"
  shows "dom (starts r') =
           (if msgtype ev = START then insert (playbook_of ev) (dom (starts r)) else dom (starts r)) \<and>
         dom (ends r') =
           (if msgtype ev = DONE then insert (playbook_of ev) (dom (ends r)) else dom (ends r)) \<and>
         fst ` set (recaps r') \<subseteq> insert (playbook_of ev) (fst ` set (recaps r))"
proof -
  obtain k pb m where ev: "ev = (k, pb, m)" by (cases ev)
  from assms show ?thesis
    unfolding ev
    by (cases k)
      (auto simp: show_event_def Let_def stream_write_def msgtype_def playbook_of_def
        split: option.splits if_splits dest: recaps_append_key)
qed

lemma inv_print_job_step:
  assumes "inv_print s" and "job_step c i s = Some s'"
  shows "inv_print s'"
  using assms(2)
proof (cases rule: job_step_cases)
  case cancel_waiting
  with assms(1) show ?thesis by (simp add: inv_print_def)
next
  case acquire
  with assms(1) show ?thesis by (simp add: inv_print_def)
next
  case (cancel_running evs oc)
  with assms(1) show ?thesis by (simp add: inv_print_def)
next
  case (leave oc)
  with assms(1) show ?thesis by (simp add: inv_print_def)
next
  case (put e rest oc)
  with assms(1) show ?thesis
    unfolding inv_print_def by (simp add: image_Un) blast
qed

lemma inv_print_amain_step:
  assumes "inv_print s" and "amain_step c s = Some s'"
  shows "inv_print s'"
  using assms(2)
  by (cases rule: amain_step_cases) (use assms(1) in \<open>simp_all add: inv_print_def\<close>)

lemma inv_print_printer_step:
  assumes "inv_print s" and "printer_step c now s = Some s'"
  shows "inv_print s'"
  using assms(2)
proof (cases rule: printer_step_cases)
  case (stop r)
  with assms(1) show ?thesis by (simp add: inv_print_def)
next
  case (finish r q)
  with assms(1) show ?thesis
    by (simp add: inv_print_def split: sum.splits prod.splits)
next
  case (event r ev q)
  from assms(1) event(1,3) have q: "events q \<subseteq> snd ` set (sent s)"
    and evs: "ev \<in> snd ` set (sent s)"
    and rk: "fst ` set (recaps r) \<subseteq> playbook_of ` snd ` set (sent s)"
    and st: "pbs_of START (snd ` set (sent s))
             \<subseteq> dom (starts r) \<union> pbs_of START (insert ev (events q))"
    and dn: "pbs_of DONE (snd ` set (sent s))
             \<subseteq> dom (ends r) \<union> pbs_of DONE (insert ev (events q))"
    by (simp_all add: inv_print_def)
  show ?thesis
  proof (cases "show_event (playbooks c) (columns c) now ev r")
    case (Inl a)
    with event q show ?thesis
      by (cases a) (simp add: inv_print_def)
  next
    case (Inr r')
    note eff = show_event_effect [OF Inr]
    have rk': "fst ` set (recaps r') \<subseteq> playbook_of ` snd ` set (sent s)"
      using eff rk evs by blast
    have st': "pbs_of START (snd ` set (sent s)) \<subseteq> dom (starts r') \<union> pbs_of START (events q)"
      using eff st by (auto split: if_splits)
    have dn': "pbs_of DONE (snd ` set (sent s)) \<subseteq> dom (ends r') \<union> pbs_of DONE (events q)"
      using eff dn by (auto split: if_splits)
    from event Inr q rk' st' dn' show ?thesis
      by (simp add: inv_print_def)
  qed
qed

lemma inv_print_init: "inv_print (init c)"
  by (auto simp: inv_print_def init_def show_start_recaps split: sum.splits prod.splits)

lemma inv_print_step:
  assumes "inv_print s" and "step c a s = Some s'"
  shows "inv_print s'"
proof (cases a)
  case (Job i)
  with assms(2) have "job_step c i s = Some s'" by (simp add: step_def)
  with assms(1) show ?thesis by (rule inv_print_job_step)
next
  case (Printer now)
  with assms(2) have "printer_step c now s = Some s'" by (simp add: step_def)
  with assms(1) show ?thesis by (rule inv_print_printer_step)
next
  case Amain
  with assms(2) have "amain_step c s = Some s'" by (simp add: step_def)
  with assms(1) show ?thesis by (rule inv_print_amain_step)
qed

lemma inv_print_exec: "inv_print s \<Longrightarrow> exec c sched s = Some s' \<Longrightarrow> inv_print s'"
proof (induction sched arbitrary: s)
  case Nil
  then show ?case by simp
next
  case (Cons a sched)
  from Cons.prems(2) obtain s1 where s1: "step c a s = Some s1" "exec c sched s1 = Some s'"
    by (cases "step c a s") auto
  from inv_print_step [OF Cons.prems(1) s1(1)] Cons.IH s1(2) show ?case by blast
qed

lemma exec_inv_print: "exec c sched (init c) = Some s \<Longrightarrow> inv_print s"
  using inv_print_exec [OF inv_print_init] by blast

lemma sent_by_mem: "e \<in> set (sent_by i s) \<longleftrightarrow> (i, e) \<in> set (sent s)"
  by (force simp: sent_by_def)

lemma final_report_ok:
  "\<forall>k \<in> fst ` set rc. k \<in> dom (starts s) \<and> k \<in> dom (ends s) \<Longrightarrow>
   \<exists>s'. final_report fmt rc s = Inr s'"
proof (induction rc arbitrary: s)
  case Nil
  then show ?case by simp
next
  case (Cons a rc)
  obtain playbook recap where a: "a = (playbook, recap)" by (cases a)
  from Cons.prems a obtain b e where be: "starts s playbook = Some b" "ends s playbook = Some e"
    by auto
  let ?s = "s\<lparr>stream := stream s @
      [lit ''# Playbook '' @ playbook @ lit '', ran in '' @ fmt (e - b) @ lit ''s'' @ [NL]] @
      concat (map report_chunk recap)\<rparr>"
  from Cons.prems have "\<forall>k \<in> fst ` set rc. k \<in> dom (starts ?s) \<and> k \<in> dom (ends ?s)"
    by simp
  from Cons.IH [OF this] show ?case using a be by simp
qed

lemma butlast_sentinel: "None \<notin> set (butlast (None # q)) \<Longrightarrow> q = []"
  by (cases q) auto

text \<open>
  Claim C10: when the renderer takes the sentinel from the queue, nothing waits behind
  it, every job has returned from \<open>run_playbook\<close> (so every process was spawned),
  and every key of \<open>recaps\<close> is a key of \<open>starts\<close> and of \<open>ends\<close>: the
  final report finds \<open>ends[playbook]\<close> and \<open>starts[playbook]\<close> and raises no
  KeyError.
\<close>

theorem final_report_finds_its_keys:
  assumes "exec c sched (init c) = Some s"
    and "printer s = Printing r"
    and "queue s = None # q"
  shows "q = [] \<and>
         (\<forall>i < length (playbooks c). procs c i \<noteq> SpawnFails \<and>
            (\<exists>rc. jobs s ! i = Finished (Inr rc))) \<and>
         fst ` set (recaps r) \<subseteq> dom (starts r) \<inter> dom (ends r) \<and>
         (\<exists>r'. show_finish (fmt_secs c) r = Inr r')"
proof -
  note ij = exec_inv_jobs [OF assms(1)]
  note ic = exec_inv_ctl [OF assms(1)]
  note ip = exec_inv_print [OF assms(1)]
  from ij have len: "length (jobs s) = length (playbooks c)"
    and idx: "\<forall>p \<in> set (sent s). fst p < length (jobs s)"
    by (auto simp: inv_jobs_def)
  from ic assms(3) obtain rs where rs: "returned_with rs (jobs s)"
    by (auto simp: inv_ctl_def)
  from ic have "None \<notin> set (butlast (queue s))" by (simp add: inv_ctl_def)
  with assms(3) have "None \<notin> set (butlast (None # q))" by simp
  then have q: "q = []" by (rule butlast_sentinel)
  from ip assms(2,3) q
  have rk: "fst ` set (recaps r) \<subseteq> playbook_of ` snd ` set (sent s)"
    and st: "pbs_of START (snd ` set (sent s)) \<subseteq> dom (starts r)"
    and dn: "pbs_of DONE (snd ` set (sent s)) \<subseteq> dom (ends r)"
    by (simp_all add: inv_print_def)
  have job: "procs c i \<noteq> SpawnFails \<and> jobs s ! i = Finished (Inr (rs ! i)) \<and>
      playbooks c ! i \<in> dom (starts r) \<and> playbooks c ! i \<in> dom (ends r) \<and>
      (\<forall>e. (i, e) \<in> set (sent s) \<longrightarrow> playbook_of e = playbooks c ! i)"
    if i: "i < length (playbooks c)" for i
  proof -
    from returned_with_nth [OF rs, of i] i len
    have f: "jobs s ! i = Finished (Inr (rs ! i))" by simp
    with exec_job_ok [OF assms(1) i]
    have sb: "sent_by i s = job_events c i" and oc: "job_outcome c i = Inr (rs ! i)"
      by simp_all
    from job_events_returned [OF oc] obtain m1 m2 where
      sp: "procs c i \<noteq> SpawnFails"
      and m1: "(START, playbooks c ! i, m1) \<in> set (job_events c i)"
      and m2: "(DONE, playbooks c ! i, m2) \<in> set (job_events c i)"
      by blast
    from m1 m2 have "(i, START, playbooks c ! i, m1) \<in> set (sent s)"
      "(i, DONE, playbooks c ! i, m2) \<in> set (sent s)"
      unfolding sb [symmetric] sent_by_mem by simp_all
    then have "playbooks c ! i \<in> pbs_of START (snd ` set (sent s))"
      "playbooks c ! i \<in> pbs_of DONE (snd ` set (sent s))"
      by (force simp: pbs_of_def msgtype_def playbook_of_def)+
    with st dn have d: "playbooks c ! i \<in> dom (starts r)" "playbooks c ! i \<in> dom (ends r)"
      by blast+
    have "\<forall>e. (i, e) \<in> set (sent s) \<longrightarrow> playbook_of e = playbooks c ! i"
    proof (intro allI impI)
      fix e assume "(i, e) \<in> set (sent s)"
      then have "e \<in> set (job_events c i)"
        unfolding sb [symmetric] sent_by_mem .
      then show "playbook_of e = playbooks c ! i" by (rule job_events_playbook)
    qed
    with sp f d show ?thesis by blast
  qed
  have keys: "fst ` set (recaps r) \<subseteq> dom (starts r) \<inter> dom (ends r)"
  proof
    fix k assume "k \<in> fst ` set (recaps r)"
    with rk obtain p where p: "p \<in> set (sent s)" "k = playbook_of (snd p)" by blast
    obtain i e where ie: "p = (i, e)" by (cases p)
    with p idx len have i: "i < length (playbooks c)" by auto
    from job [OF i] have d: "playbooks c ! i \<in> dom (starts r)"
        "playbooks c ! i \<in> dom (ends r)"
      and pe: "\<forall>e. (i, e) \<in> set (sent s) \<longrightarrow> playbook_of e = playbooks c ! i"
      by blast+
    from pe p(1) ie have "playbook_of e = playbooks c ! i" by blast
    with p(2) ie have "k = playbooks c ! i" by simp
    with d show "k \<in> dom (starts r) \<inter> dom (ends r)" by blast
  qed
  have "\<exists>r'. show_finish (fmt_secs c) r = Inr r'"
    unfolding show_finish_def Let_def
    by (rule final_report_ok) (use keys in \<open>auto simp: stream_write_def\<close>)
  with q job keys show ?thesis by blast
qed

theorem final_report_finds_its_keys_witness:
  "map_option observe
     (exec (demo [lit ''a'', lit ''b'']
              [Proc [lit ''TASK [x]'' @ [NL], [NL]] 0,
               Proc [lit ''TASK [y]'' @ [NL], lit ''failed: [h]'' @ [NL], [NL]] 1] 5)
        [Job 0, Job 0, Job 0, Job 0, Job 0, Job 1, Job 1, Job 1, Job 1, Job 1, Amain,
         Printer 1, Printer 2, Printer 3, Printer 4, Printer 5, Printer 6]
        (init (demo [lit ''a'', lit ''b'']
              [Proc [lit ''TASK [x]'' @ [NL], [NL]] 0,
               Proc [lit ''TASK [y]'' @ [NL], lit ''failed: [h]'' @ [NL], [NL]] 1] 5))) =
   Some (5, [Finished (Inr 0), Finished (Inr 1)], [None],
         [(0, START, lit ''a'', []),
          (0, TASK, lit ''a'', lit ''TASK [x]'' @ [NL, NL]),
          (0, DONE, lit ''a'', lit ''Done.''),
          (1, START, lit ''b'', []),
          (1, ERROR, lit ''b'', lit ''TASK [y]'' @ [NL] @ lit ''failed: [h]'' @ [NL, NL]),
          (1, DONE, lit ''b'', lit ''Exited with error code: 1'')],
         IsPrinting, AwaitingPrinter) \<and>
   map_option report_keys
     (exec (demo [lit ''a'', lit ''b'']
              [Proc [lit ''TASK [x]'' @ [NL], [NL]] 0,
               Proc [lit ''TASK [y]'' @ [NL], lit ''failed: [h]'' @ [NL], [NL]] 1] 5)
        [Job 0, Job 0, Job 0, Job 0, Job 0, Job 1, Job 1, Job 1, Job 1, Job 1, Amain,
         Printer 1, Printer 2, Printer 3, Printer 4, Printer 5, Printer 6]
        (init (demo [lit ''a'', lit ''b'']
              [Proc [lit ''TASK [x]'' @ [NL], [NL]] 0,
               Proc [lit ''TASK [y]'' @ [NL], lit ''failed: [h]'' @ [NL], [NL]] 1] 5))) =
   Some [lit ''b''] \<and>
   (\<exists>s r. exec (demo [lit ''a'', lit ''b'']
              [Proc [lit ''TASK [x]'' @ [NL], [NL]] 0,
               Proc [lit ''TASK [y]'' @ [NL], lit ''failed: [h]'' @ [NL], [NL]] 1] 5)
        [Job 0, Job 0, Job 0, Job 0, Job 0, Job 1, Job 1, Job 1, Job 1, Job 1, Amain,
         Printer 1, Printer 2, Printer 3, Printer 4, Printer 5, Printer 6]
        (init (demo [lit ''a'', lit ''b'']
              [Proc [lit ''TASK [x]'' @ [NL], [NL]] 0,
               Proc [lit ''TASK [y]'' @ [NL], lit ''failed: [h]'' @ [NL], [NL]] 1] 5)) = Some s \<and>
      printer s = Printing r \<and> queue s = [None] \<and>
      lit ''b'' \<in> dom (starts r) \<and> lit ''b'' \<in> dom (ends r) \<and>
      (\<exists>r'. show_finish (\<lambda>x. lit ''0'') r = Inr r'))"
proof -
  let ?c = "demo [lit ''a'', lit ''b'']
              [Proc [lit ''TASK [x]'' @ [NL], [NL]] 0,
               Proc [lit ''TASK [y]'' @ [NL], lit ''failed: [h]'' @ [NL], [NL]] 1] 5"
  let ?sched = "[Job 0, Job 0, Job 0, Job 0, Job 0, Job 1, Job 1, Job 1, Job 1, Job 1, Amain,
         Printer 1, Printer 2, Printer 3, Printer 4, Printer 5, Printer 6]"
  have ev: "map_option observe (exec ?c ?sched (init ?c)) =
     Some (5, [Finished (Inr 0), Finished (Inr 1)], [None],
         [(0, START, lit ''a'', []),
          (0, TASK, lit ''a'', lit ''TASK [x]'' @ [NL, NL]),
          (0, DONE, lit ''a'', lit ''Done.''),
          (1, START, lit ''b'', []),
          (1, ERROR, lit ''b'', lit ''TASK [y]'' @ [NL] @ lit ''failed: [h]'' @ [NL, NL]),
          (1, DONE, lit ''b'', lit ''Exited with error code: 1'')],
         IsPrinting, AwaitingPrinter)"
    by (simp add: run_defs classifier_defs string_defs)
  have rk: "map_option report_keys (exec ?c ?sched (init ?c)) = Some [lit ''b'']"
    by (simp add: run_defs classifier_defs string_defs report_keys_def)
  from ev obtain s where s: "exec ?c ?sched (init ?c) = Some s" "queue s = [None]"
    "status_of (printer s) = IsPrinting"
    by (auto simp: observe_def)
  from s(3) obtain r where r: "printer s = Printing r"
    by (cases "printer s") simp_all
  from rk s(1) r have "map fst (recaps r) = [lit ''b'']"
    by (simp add: report_keys_def)
  then have "fst ` set (recaps r) = {lit ''b''}"
    by (metis list.set_map list.simps(15) empty_set)
  moreover have f: "fmt_secs ?c = (\<lambda>x. lit ''0'')" by (simp add: demo_def)
  ultimately have "lit ''b'' \<in> dom (starts r)" "lit ''b'' \<in> dom (ends r)"
    "\<exists>r'. show_finish (\<lambda>x. lit ''0'') r = Inr r'"
    using final_report_finds_its_keys [OF s(1) r s(2)] by auto
  with ev rk s r show ?thesis by blast
qed

end
